theory Spec2Isabelle
  imports Complex_Main "HOL-Library.Multiset"
begin

section \<open>Errors and NumPy floating-point values\<close>

text \<open>
  The Python exceptions the generator and the test battery can raise. Neither
  \<^verbatim>\<open>random_generator.py\<close> nor \<^verbatim>\<open>statistical_tests.py\<close> has a
  \<^verbatim>\<open>try\<close> block, so every exception of a library call or of an operator
  propagates to the caller.
\<close>

datatype error = ValueError | IndexError | OverflowError

text \<open>
  NumPy float64 values: a finite value, the two infinities, or NaN. Signed zeros are not
  distinguished. NumPy arithmetic never raises on a division by zero or an invalid
  operation: it warns and returns an infinity or NaN, which is what the operations below
  do. The operations \<open>fadd\<close>, \<open>fmul\<close>, \<open>fdiv\<close>, \<open>fsqrt\<close> and
  \<open>flog2\<close> return the exact real result; the rounding of float64 is added by
  \<open>round64\<close> further down, and is used where the battery compares two computed
  values with each other (the independence test).
\<close>

datatype npfloat = Fin real | PInf | NInf | NaN

fun fneg :: "npfloat \<Rightarrow> npfloat" where
  "fneg (Fin a) = Fin (- a)"
| "fneg PInf = NInf"
| "fneg NInf = PInf"
| "fneg NaN = NaN"

fun fadd :: "npfloat \<Rightarrow> npfloat \<Rightarrow> npfloat" where
  "fadd (Fin a) (Fin b) = Fin (a + b)"
| "fadd NaN _ = NaN"
| "fadd _ NaN = NaN"
| "fadd PInf NInf = NaN"
| "fadd NInf PInf = NaN"
| "fadd PInf _ = PInf"
| "fadd _ PInf = PInf"
| "fadd NInf _ = NInf"
| "fadd _ NInf = NInf"

definition fsub :: "npfloat \<Rightarrow> npfloat \<Rightarrow> npfloat" where
  "fsub a b = fadd a (fneg b)"

definition inf_of_sign :: "real \<Rightarrow> npfloat" where
  "inf_of_sign s = (if s = 0 then NaN else if 0 < s then PInf else NInf)"

fun fsign :: "npfloat \<Rightarrow> real option" where
  "fsign (Fin a) = Some (sgn a)"
| "fsign PInf = Some 1"
| "fsign NInf = Some (- 1)"
| "fsign NaN = None"

fun fmul :: "npfloat \<Rightarrow> npfloat \<Rightarrow> npfloat" where
  "fmul (Fin a) (Fin b) = Fin (a * b)"
| "fmul a b = (case (fsign a, fsign b) of
                 (Some s, Some t) \<Rightarrow> inf_of_sign (s * t)
               | _ \<Rightarrow> NaN)"

fun fdiv :: "npfloat \<Rightarrow> npfloat \<Rightarrow> npfloat" where
  "fdiv (Fin a) (Fin b) = (if b = 0 then inf_of_sign a else Fin (a / b))"
| "fdiv (Fin a) PInf = Fin 0"
| "fdiv (Fin a) NInf = Fin 0"
| "fdiv PInf (Fin b) = (if 0 \<le> b then PInf else NInf)"
| "fdiv NInf (Fin b) = (if 0 \<le> b then NInf else PInf)"
| "fdiv _ _ = NaN"

fun fabs :: "npfloat \<Rightarrow> npfloat" where
  "fabs (Fin a) = Fin \<bar>a\<bar>"
| "fabs PInf = PInf"
| "fabs NInf = PInf"
| "fabs NaN = NaN"

fun fsqrt :: "npfloat \<Rightarrow> npfloat" where
  "fsqrt (Fin a) = (if a < 0 then NaN else Fin (sqrt a))"
| "fsqrt PInf = PInf"
| "fsqrt NInf = NaN"
| "fsqrt NaN = NaN"

fun flog2 :: "npfloat \<Rightarrow> npfloat" where
  "flog2 (Fin a) = (if a < 0 then NaN else if a = 0 then NInf else Fin (log 2 a))"
| "flog2 PInf = PInf"
| "flog2 NInf = NaN"
| "flog2 NaN = NaN"

text \<open>Comparison \<^verbatim>\<open>a > b\<close>: false whenever an operand is NaN.\<close>

fun fgt :: "npfloat \<Rightarrow> npfloat \<Rightarrow> bool" where
  "fgt (Fin a) (Fin b) = (b < a)"
| "fgt NaN _ = False"
| "fgt _ NaN = False"
| "fgt PInf PInf = False"
| "fgt PInf _ = True"
| "fgt _ PInf = False"
| "fgt NInf _ = False"
| "fgt _ NInf = True"

text \<open>\<^verbatim>\<open>np.maximum\<close> of two values: NaN propagates.\<close>

fun fmax :: "npfloat \<Rightarrow> npfloat \<Rightarrow> npfloat" where
  "fmax NaN _ = NaN"
| "fmax _ NaN = NaN"
| "fmax a b = (if fgt b a then b else a)"

text \<open>\<^verbatim>\<open>np.sum\<close> of a float array (0.0 for the empty array).\<close>

definition fsum :: "npfloat list \<Rightarrow> npfloat" where
  "fsum xs = foldl fadd (Fin 0) xs"

text \<open>
  Rounding to float64 (IEEE 754 binary64, round to nearest, ties to even). A real
  \<open>x \<noteq> 0\<close> with binary exponent \<open>e = \<lfloor>log\<^sub>2 |x|\<rfloor>\<close> lies between two
  neighbouring multiples of the spacing \<open>2\<^bsup>e - 52\<^esup>\<close> (of \<open>2\<^bsup>-1074\<^esup>\<close> in the
  subnormal range, \<open>e < -1022\<close>); \<open>round_nearest x\<close> is the nearer one, the one with
  the even multiplier when \<open>x\<close> is half-way. A result of magnitude \<open>2\<^bsup>1024\<^esup>\<close> or
  more is not a float64: the rounded value is then an infinity.
\<close>

definition round_half_even :: "real \<Rightarrow> int" where
  "round_half_even x =
     (if x - real_of_int \<lfloor>x\<rfloor> < 1 / 2 then \<lfloor>x\<rfloor>
      else if 1 / 2 < x - real_of_int \<lfloor>x\<rfloor> then \<lfloor>x\<rfloor> + 1
      else if even \<lfloor>x\<rfloor> then \<lfloor>x\<rfloor> else \<lfloor>x\<rfloor> + 1)"

definition float_spacing :: "real \<Rightarrow> real" where
  "float_spacing x = 2 powr real_of_int (max \<lfloor>log 2 \<bar>x\<bar>\<rfloor> (- 1022) - 52)"

definition round_nearest :: "real \<Rightarrow> real" where
  "round_nearest x =
     (if x = 0 then 0
      else sgn x * real_of_int (round_half_even (\<bar>x\<bar> / float_spacing x)) * float_spacing x)"

definition round64 :: "real \<Rightarrow> npfloat" where
  "round64 x =
     (if 2 ^ 1024 \<le> \<bar>round_nearest x\<bar> then (if 0 < x then PInf else NInf)
      else Fin (round_nearest x))"

text \<open>
  The float64 division and square root: the exact result, rounded. The conversion of an
  int64 to float64 rounds too (beyond \<open>2\<^sup>5\<^sup>3\<close> not every integer is a float64).
\<close>

definition fdiv64 :: "npfloat \<Rightarrow> npfloat \<Rightarrow> npfloat" where
  "fdiv64 a b = (case fdiv a b of Fin q \<Rightarrow> round64 q | r \<Rightarrow> r)"

definition fsqrt64 :: "npfloat \<Rightarrow> npfloat" where
  "fsqrt64 a = (case fsqrt a of Fin r \<Rightarrow> round64 r | r \<Rightarrow> r)"

definition float64_of_int :: "int \<Rightarrow> npfloat" where
  "float64_of_int a = round64 (real_of_int a)"

text \<open>
  Arithmetic on NumPy's signed 64-bit integers wraps around (with a warning, never an
  exception): the result of an operation is the exact result reduced into
  \<open>[-2\<^sup>6\<^sup>3, 2\<^sup>6\<^sup>3)\<close>. It is written out where the battery multiplies int64
  values: the sums of products of \<^verbatim>\<open>np.correlate\<close> and the products of counts in
  the runs test, which leave the int64 range on sequences of some ten thousand elements.
\<close>

definition wrap64 :: "int \<Rightarrow> int" where
  "wrap64 x = (x + 2 ^ 63) mod 2 ^ 64 - 2 ^ 63"

section \<open>The sequence generator (random\_generator.py)\<close>

subsection \<open>The random sources\<close>

text \<open>
  The entropy consumed by the library samplers is an explicit argument: one stream of
  raw draws per library primitive, indexed by the position of the draw inside the call.
  Every primitive maps a raw draw into the range the library documents for it, so a claim
  proved for every \<open>rng\<close> holds for every outcome the real samplers can produce. Every
  primitive checks its arguments as the library does, in the library's order, before it
  draws. The samples themselves are mathematical integers and reals: the rounding of a
  sample and the conversion of the bound \<open>N - 1\<close> to float64 in \<^verbatim>\<open>np.clip\<close> are
  exact here, which is what NumPy does as long as \<open>|N| \<le> 2\<^sup>5\<^sup>3\<close>; the statements about
  returned sequences are made for such \<open>N\<close>. An array of any size can be allocated.
\<close>

record rng =
  raw_randint :: "nat \<Rightarrow> nat"
  raw_shuffle :: "nat \<Rightarrow> nat"
  raw_np_randint :: "nat \<Rightarrow> nat"
  raw_normal :: "nat \<Rightarrow> real"
  raw_exponential :: "nat \<Rightarrow> real"
  raw_poisson :: "nat \<Rightarrow> nat"
  raw_chisquare :: "nat \<Rightarrow> real"
  raw_multinomial :: "nat \<Rightarrow> nat"

text \<open>
  \<^verbatim>\<open>random.randint(a, b)\<close> of the standard library: an integer of \<open>[a, b]\<close>,
  ValueError for an empty range.
\<close>

definition random_randint :: "rng \<Rightarrow> nat \<Rightarrow> int \<Rightarrow> int \<Rightarrow> error + int" where
  "random_randint g k a b =
     (if b < a then Inl ValueError
      else Inr (a + int (raw_randint g k) mod (b - a + 1)))"

text \<open>
  A list comprehension over \<^verbatim>\<open>range(count)\<close> whose element expression may raise:
  the first exception ends it. \<^verbatim>\<open>range(count)\<close> is empty for \<open>count \<le> 0\<close>.
\<close>

fun comprehension :: "(nat \<Rightarrow> error + 'a) \<Rightarrow> nat list \<Rightarrow> error + 'a list" where
  "comprehension f [] = Inr []"
| "comprehension f (k # ks) =
     (case f k of
        Inl e \<Rightarrow> Inl e
      | Inr v \<Rightarrow> (case comprehension f ks of
                   Inl e \<Rightarrow> Inl e
                 | Inr vs \<Rightarrow> Inr (v # vs)))"

definition py_range :: "int \<Rightarrow> nat list" where
  "py_range n = [0..<nat n]"

text \<open>
  \<^verbatim>\<open>np.random.randint(low, high, size)\<close>, with the default dtype int64: an empty
  result for size 0 before any check of the bounds; then ValueError for a \<open>low\<close> below
  \<open>-2\<^sup>6\<^sup>3\<close>, for a \<open>high\<close> whose last value \<open>high - 1\<close> is above \<open>2\<^sup>6\<^sup>3 - 1\<close>,
  for \<open>low \<ge> high\<close>, and for a negative size; else \<open>size\<close> integers of \<open>[low, high)\<close>.
\<close>

definition np_random_randint :: "rng \<Rightarrow> int \<Rightarrow> int \<Rightarrow> int \<Rightarrow> error + int list" where
  "np_random_randint g low high sz =
     (if sz = 0 then Inr []
      else if low < - (2 ^ 63) then Inl ValueError
      else if 2 ^ 63 - 1 < high - 1 then Inl ValueError
      else if high \<le> low \<or> sz < 0 then Inl ValueError
      else Inr (map (\<lambda>k. low + int (raw_np_randint g k) mod (high - low)) (py_range sz)))"

text \<open>
  \<^verbatim>\<open>np.random.normal(loc, scale, size)\<close>: ValueError for a negative scale or size.
\<close>

definition np_random_normal :: "rng \<Rightarrow> real \<Rightarrow> real \<Rightarrow> int \<Rightarrow> error + real list" where
  "np_random_normal g loc scale sz =
     (if scale < 0 \<or> sz < 0 then Inl ValueError
      else Inr (map (\<lambda>k. loc + scale * raw_normal g k) (py_range sz)))"

text \<open>
  \<^verbatim>\<open>np.random.exponential(scale, size)\<close>: ValueError for a negative scale or size;
  the samples are non-negative.
\<close>

definition np_random_exponential :: "rng \<Rightarrow> real \<Rightarrow> int \<Rightarrow> error + real list" where
  "np_random_exponential g scale sz =
     (if scale < 0 \<or> sz < 0 then Inl ValueError
      else Inr (map (\<lambda>k. scale * \<bar>raw_exponential g k\<bar>) (py_range sz)))"

text \<open>
  \<^verbatim>\<open>np.random.poisson(lam, size)\<close>: ValueError for a negative rate, for a rate above
  the largest one the sampler supports, which is 9223372006484770816, the float64 value of
  \<open>2\<^sup>6\<^sup>3 - 1 - 10 sqrt (2\<^sup>6\<^sup>3 - 1)\<close>, and for a negative size; the samples are
  non-negative integers.
\<close>

definition np_random_poisson :: "rng \<Rightarrow> real \<Rightarrow> int \<Rightarrow> error + int list" where
  "np_random_poisson g lam sz =
     (if lam < 0 \<or> 9223372006484770816 < lam \<or> sz < 0 then Inl ValueError
      else Inr (map (\<lambda>k. int (raw_poisson g k)) (py_range sz)))"

text \<open>
  \<^verbatim>\<open>np.random.chisquare(df, size)\<close>: ValueError unless \<open>df > 0\<close> (\<^verbatim>\<open>df <= 0\<close>), and
  for a negative size; the samples are non-negative.
\<close>

definition np_random_chisquare :: "rng \<Rightarrow> real \<Rightarrow> int \<Rightarrow> error + real list" where
  "np_random_chisquare g df sz =
     (if df \<le> 0 \<or> sz < 0 then Inl ValueError
      else Inr (map (\<lambda>k. \<bar>raw_chisquare g k\<bar>) (py_range sz)))"

text \<open>
  \<^verbatim>\<open>np.random.multinomial(n, pvals)\<close>: ValueError when a probability is not in
  \<open>[0, 1]\<close> (NaN included), when the probabilities but the last sum to more than
  \<open>1 + 1e-12\<close>, or when \<open>n < 0\<close>. Otherwise one count per probability: every count
  but the last is drawn from what is left of \<open>n\<close>, the last one takes the rest.
\<close>

fun multinomial_split :: "(nat \<Rightarrow> nat) \<Rightarrow> nat \<Rightarrow> nat \<Rightarrow> nat \<Rightarrow> nat list" where
  "multinomial_split raw k left 0 = []"
| "multinomial_split raw k left (Suc 0) = [left]"
| "multinomial_split raw k left (Suc (Suc d)) =
     min (raw k) left # multinomial_split raw (Suc k) (left - min (raw k) left) (Suc d)"

definition is_probability :: "npfloat \<Rightarrow> bool" where
  "is_probability p = (case p of Fin a \<Rightarrow> 0 \<le> a \<and> a \<le> 1 | _ \<Rightarrow> False)"

definition np_random_multinomial :: "rng \<Rightarrow> int \<Rightarrow> npfloat list \<Rightarrow> error + int list" where
  "np_random_multinomial g n pvals =
     (if \<not> list_all is_probability pvals then Inl ValueError
      else if fgt (fsum (butlast pvals)) (Fin (1 + 1 / 10 ^ 12)) then Inl ValueError
      else if n < 0 then Inl ValueError
      else Inr (map int (multinomial_split (raw_multinomial g) 0 (nat n) (length pvals))))"

text \<open>
  \<^verbatim>\<open>random.shuffle(x)\<close>: for \<open>i\<close> from \<open>len(x) - 1\<close> down to 1, swap \<open>x[i]\<close> with
  \<open>x[j]\<close> for a random \<open>j\<close> of \<open>[0, i]\<close>.
\<close>

fun shuffle_loop :: "(nat \<Rightarrow> nat) \<Rightarrow> nat \<Rightarrow> 'a list \<Rightarrow> 'a list" where
  "shuffle_loop raw 0 xs = xs"
| "shuffle_loop raw (Suc i) xs =
     shuffle_loop raw i
       (xs[Suc i := xs ! (raw (Suc i) mod Suc (Suc i)),
           raw (Suc i) mod Suc (Suc i) := xs ! Suc i])"

definition random_shuffle :: "rng \<Rightarrow> 'a list \<Rightarrow> 'a list" where
  "random_shuffle g xs = shuffle_loop (raw_shuffle g) (length xs - 1) xs"

text \<open>
  \<^verbatim>\<open>np.clip(x, lo, hi)\<close> is \<open>minimum(maximum(x, lo), hi)\<close>; \<^verbatim>\<open>astype(int)\<close>
  truncates toward zero.
\<close>

definition np_clip :: "'a::linorder \<Rightarrow> 'a \<Rightarrow> 'a \<Rightarrow> 'a" where
  "np_clip x lo hi = min (max x lo) hi"

definition astype_int :: "real \<Rightarrow> int" where
  "astype_int x = (if 0 \<le> x then \<lfloor>x\<rfloor> else \<lceil>x\<rceil>)"

text \<open>
  The true division \<^verbatim>\<open>a / b\<close> of two Python integers, where \<open>b\<close> is one of the
  literals 2, 4 and 6: the float nearest to the quotient, and OverflowError when that
  float would not be finite, that is when the magnitude of the quotient reaches
  \<open>2\<^bsup>1024\<^esup> - 2\<^bsup>970\<^esup>\<close>, half a spacing above the largest float. A finite quotient
  is kept exact: it is only the location, the scale, the rate or the number of degrees of
  freedom handed to a sampler, whose raw draws range over all values anyway.
\<close>

definition py_truediv :: "int \<Rightarrow> int \<Rightarrow> error + real" where
  "py_truediv a b =
     (if 2 ^ 1024 - 2 ^ 970 \<le> \<bar>real_of_int a / real_of_int b\<bar> then Inl OverflowError
      else Inr (real_of_int a / real_of_int b))"

text \<open>\<^verbatim>\<open>int(x)\<close> of a float: truncation toward zero.\<close>

definition py_int :: "real \<Rightarrow> int" where
  "py_int x = (if 0 \<le> x then \<lfloor>x\<rfloor> else \<lceil>x\<rceil>)"

subsection \<open>The seven distributions\<close>

definition simple_random :: "rng \<Rightarrow> int \<Rightarrow> int \<Rightarrow> error + int list" where
  "simple_random g N cnt =
     comprehension (\<lambda>k. random_randint g k 0 (N - 1)) (py_range cnt)"

definition uniform_random :: "rng \<Rightarrow> int \<Rightarrow> int \<Rightarrow> error + int list" where
  "uniform_random g N cnt = np_random_randint g 0 N cnt"

text \<open>
  A parameter with the default \<^verbatim>\<open>None\<close>: the statement
  \<^verbatim>\<open>if p is None: p = N / d\<close>, which raises what the division raises.
\<close>

definition default_param :: "real option \<Rightarrow> int \<Rightarrow> int \<Rightarrow> error + real" where
  "default_param p N d = (case p of None \<Rightarrow> py_truediv N d | Some v \<Rightarrow> Inr v)"

definition normal_random ::
    "rng \<Rightarrow> int \<Rightarrow> int \<Rightarrow> real option \<Rightarrow> real option \<Rightarrow> error + int list" where
  "normal_random g N cnt mean std =
     (case default_param mean N 2 of
        Inl e \<Rightarrow> Inl e
      | Inr mean' \<Rightarrow>
     (case default_param std N 6 of
        Inl e \<Rightarrow> Inl e
      | Inr std' \<Rightarrow>
     (case np_random_normal g mean' std' cnt of
        Inl e \<Rightarrow> Inl e
      | Inr numbers \<Rightarrow>
          Inr (map (\<lambda>x. astype_int (np_clip x 0 (real_of_int (N - 1)))) numbers))))"

definition exponential_random ::
    "rng \<Rightarrow> int \<Rightarrow> int \<Rightarrow> real option \<Rightarrow> error + int list" where
  "exponential_random g N cnt scale =
     (case default_param scale N 4 of
        Inl e \<Rightarrow> Inl e
      | Inr scale' \<Rightarrow>
     (case np_random_exponential g scale' cnt of
        Inl e \<Rightarrow> Inl e
      | Inr numbers \<Rightarrow>
          Inr (map (\<lambda>x. astype_int (np_clip x 0 (real_of_int (N - 1)))) numbers)))"

definition poisson_random ::
    "rng \<Rightarrow> int \<Rightarrow> int \<Rightarrow> real option \<Rightarrow> error + int list" where
  "poisson_random g N cnt lambda_param =
     (case default_param lambda_param N 2 of
        Inl e \<Rightarrow> Inl e
      | Inr lam \<Rightarrow>
     (case np_random_poisson g lam cnt of
        Inl e \<Rightarrow> Inl e
      | Inr numbers \<Rightarrow> Inr (map (\<lambda>x. np_clip x 0 (N - 1)) numbers)))"

text \<open>The default of the chi-square sampler: \<^verbatim>\<open>if df is None: df = int(N / 2)\<close>.\<close>

definition default_df :: "int option \<Rightarrow> int \<Rightarrow> error + int" where
  "default_df df N =
     (case df of
        None \<Rightarrow> (case py_truediv N 2 of Inl e \<Rightarrow> Inl e | Inr h \<Rightarrow> Inr (py_int h))
      | Some d \<Rightarrow> Inr d)"

definition chi_square_random ::
    "rng \<Rightarrow> int \<Rightarrow> int \<Rightarrow> int option \<Rightarrow> error + int list" where
  "chi_square_random g N cnt df =
     (case default_df df N of
        Inl e \<Rightarrow> Inl e
      | Inr df' \<Rightarrow>
     (case np_random_chisquare g (real_of_int df') cnt of
        Inl e \<Rightarrow> Inl e
      | Inr numbers \<Rightarrow>
          Inr (map (\<lambda>x. astype_int (np_clip x 0 (real_of_int (N - 1)))) numbers)))"

text \<open>\<^verbatim>\<open>counts[k]\<close>: IndexError past the end of the array.\<close>

definition getitem :: "'a list \<Rightarrow> nat \<Rightarrow> error + 'a" where
  "getitem xs k = (if k < length xs then Inr (xs ! k) else Inl IndexError)"

text \<open>
  One \<^verbatim>\<open>numbers.extend(sampler(N, counts[k]))\<close> statement of
  \<^verbatim>\<open>mixed_distribution\<close>: the index is evaluated first, then the sampler runs.
\<close>

definition extend_with ::
    "int list \<Rightarrow> int list \<Rightarrow> nat \<Rightarrow> (int \<Rightarrow> error + int list) \<Rightarrow> error + int list" where
  "extend_with numbers counts k sampler =
     (case getitem counts k of
        Inl e \<Rightarrow> Inl e
      | Inr c \<Rightarrow> (case sampler c of
                   Inl e \<Rightarrow> Inl e
                 | Inr xs \<Rightarrow> Inr (numbers @ xs)))"

definition default_weights :: "real list" where
  "default_weights = [0.2, 0.2, 0.2, 0.2, 0.2]"

text \<open>\<^verbatim>\<open>np.array(weights) / sum(weights)\<close>: a NumPy division, which never raises.\<close>

definition normalize_weights :: "real list \<Rightarrow> npfloat list" where
  "normalize_weights ws = map (\<lambda>w. fdiv (Fin w) (Fin (sum_list ws))) ws"

definition mixed_distribution ::
    "rng \<Rightarrow> int \<Rightarrow> int \<Rightarrow> real list option \<Rightarrow> error + int list" where
  "mixed_distribution g N cnt weights =
     (let ws = (case weights of None \<Rightarrow> default_weights | Some w \<Rightarrow> w);
          pvals = normalize_weights ws
      in case np_random_multinomial g cnt pvals of
           Inl e \<Rightarrow> Inl e
         | Inr counts \<Rightarrow>
      (case extend_with [] counts 0 (uniform_random g N) of
           Inl e \<Rightarrow> Inl e
         | Inr n0 \<Rightarrow>
      (case extend_with n0 counts 1 (\<lambda>c. normal_random g N c None None) of
           Inl e \<Rightarrow> Inl e
         | Inr n1 \<Rightarrow>
      (case extend_with n1 counts 2 (\<lambda>c. exponential_random g N c None) of
           Inl e \<Rightarrow> Inl e
         | Inr n2 \<Rightarrow>
      (case extend_with n2 counts 3 (\<lambda>c. poisson_random g N c None) of
           Inl e \<Rightarrow> Inl e
         | Inr n3 \<Rightarrow>
      (case extend_with n3 counts 4 (\<lambda>c. chi_square_random g N c None) of
           Inl e \<Rightarrow> Inl e
         | Inr n4 \<Rightarrow> Inr (random_shuffle g n4)))))))"

text \<open>
  The dispatch of \<^verbatim>\<open>main.py\<close>: a table from the distribution's name to its sampler,
  called as \<^verbatim>\<open>dist_func(args.N, args.count)\<close>, that is with the default parameters.
\<close>

datatype distribution =
  SimpleModulo | Uniform | Normal | Exponential | Poisson | ChiSquare | Mixed

fun generate :: "rng \<Rightarrow> distribution \<Rightarrow> int \<Rightarrow> int \<Rightarrow> error + int list" where
  "generate g SimpleModulo N cnt = simple_random g N cnt"
| "generate g Uniform N cnt = uniform_random g N cnt"
| "generate g Normal N cnt = normal_random g N cnt None None"
| "generate g Exponential N cnt = exponential_random g N cnt None"
| "generate g Poisson N cnt = poisson_random g N cnt None"
| "generate g ChiSquare N cnt = chi_square_random g N cnt None"
| "generate g Mixed N cnt = mixed_distribution g N cnt None"

text \<open>A fixed random source, for evaluating the generator on concrete inputs.\<close>

definition rng0 :: rng where
  "rng0 = \<lparr> raw_randint = (\<lambda>k. 7 * k + 3), raw_shuffle = (\<lambda>k. k + 1),
            raw_np_randint = (\<lambda>k. 5 * k + 1), raw_normal = (\<lambda>k. real k - 2),
            raw_exponential = (\<lambda>k. real k / 2), raw_poisson = (\<lambda>k. 3 * k),
            raw_chisquare = (\<lambda>k. real k + 1 / 2), raw_multinomial = (\<lambda>k. k + 1) \<rparr>"

text \<open>
  The contract of the generator, as a predicate on its result: every element lies in
  \<open>[0, N - 1]\<close>.
\<close>

definition in_range :: "int \<Rightarrow> int list \<Rightarrow> bool" where
  "in_range N xs = list_all (\<lambda>x. 0 \<le> x \<and> x \<le> N - 1) xs"

section \<open>The statistical test battery (statistical\_tests.py)\<close>

subsection \<open>NumPy primitives\<close>

text \<open>
  \<^verbatim>\<open>np.bincount(x, minlength=m)\<close>: ValueError for a negative element or a negative
  \<open>m\<close>; otherwise the number of occurrences of every value from 0 to the largest one,
  padded with zeros to at least \<open>m\<close> bins.
\<close>

definition np_bincount :: "int list \<Rightarrow> int \<Rightarrow> error + nat list" where
  "np_bincount xs minlength =
     (if list_ex (\<lambda>x. x < 0) xs \<or> minlength < 0 then Inl ValueError
      else Inr (map (\<lambda>v. count_list xs (int v))
                  [0..<max (nat minlength) (nat (fold max xs (- 1) + 1))]))"

definition of_counts :: "nat list \<Rightarrow> npfloat list" where
  "of_counts cs = map (\<lambda>c. Fin (real c)) cs"

text \<open>Broadcasting of two one-dimensional arrays: equal lengths, or one of length 1.\<close>

definition np_broadcast :: "'a list \<Rightarrow> 'a list \<Rightarrow> error + 'a list \<times> 'a list" where
  "np_broadcast xs ys =
     (if length xs = length ys then Inr (xs, ys)
      else if length xs = 1 then Inr (replicate (length ys) (xs ! 0), ys)
      else if length ys = 1 then Inr (xs, replicate (length xs) (ys ! 0))
      else Inl ValueError)"

text \<open>\<^verbatim>\<open>np.minimum\<close> of two values: NaN propagates.\<close>

fun fmin :: "npfloat \<Rightarrow> npfloat \<Rightarrow> npfloat" where
  "fmin NaN _ = NaN"
| "fmin _ NaN = NaN"
| "fmin a b = (if fgt a b then b else a)"

text \<open>\<^verbatim>\<open>np.max\<close> of a non-empty array (the empty one is an error at the call).\<close>

definition np_max :: "npfloat list \<Rightarrow> npfloat" where
  "np_max xs = foldl fmax (xs ! 0) (drop 1 xs)"

text \<open>\<^verbatim>\<open>np.mean\<close>, \<^verbatim>\<open>np.var\<close> and \<^verbatim>\<open>np.std\<close> (the square root of the
  variance): NaN for the empty array, no exception.\<close>

definition np_mean :: "npfloat list \<Rightarrow> npfloat" where
  "np_mean xs = fdiv (fsum xs) (Fin (real (length xs)))"

definition np_var :: "npfloat list \<Rightarrow> npfloat" where
  "np_var xs =
     np_mean (map (\<lambda>x. fmul (fabs (fsub x (np_mean xs))) (fabs (fsub x (np_mean xs)))) xs)"

definition np_std :: "npfloat list \<Rightarrow> npfloat" where
  "np_std xs = fsqrt (np_var xs)"

text \<open>
  \<^verbatim>\<open>np.correlate(a, v, mode='full')\<close>: ValueError for an empty argument; otherwise
  entry \<open>j\<close> is the sum of \<open>a[n + k] * v[n]\<close> for the lag \<open>k = j - (len(v) - 1)\<close>, over
  the \<open>n\<close> for which both indices exist. The arrays are int64, so is the sum.
\<close>

definition np_correlate_full :: "int list \<Rightarrow> int list \<Rightarrow> error + int list" where
  "np_correlate_full a v =
     (if a = [] \<or> v = [] then Inl ValueError
      else Inr (map (\<lambda>j. wrap64 (sum_list (map (\<lambda>n. a ! (n + j - (length v - 1)) * v ! n)
                      (filter (\<lambda>n. length v - 1 \<le> n + j \<and> n + j - (length v - 1) < length a)
                         [0..<length v]))))
                  [0..<length a + length v - 1]))"

text \<open>Addition, subtraction, multiplication and squaring of int64 scalars.\<close>

definition add64 :: "int \<Rightarrow> int \<Rightarrow> int" where
  "add64 a b = wrap64 (a + b)"

definition sub64 :: "int \<Rightarrow> int \<Rightarrow> int" where
  "sub64 a b = wrap64 (a - b)"

definition mul64 :: "int \<Rightarrow> int \<Rightarrow> int" where
  "mul64 a b = wrap64 (a * b)"

definition sq64 :: "int \<Rightarrow> int" where
  "sq64 a = wrap64 (a * a)"

text \<open>
  The conversion of an integer to a float without rounding, for the four tests that are
  modelled in exact arithmetic (uniformity, gap, runs and entropy).
\<close>

definition float_of_int :: "int \<Rightarrow> npfloat" where
  "float_of_int a = Fin (real_of_int a)"

subsection \<open>SciPy's distribution functions\<close>

text \<open>
  \<^verbatim>\<open>scipy.stats\<close> is not part of the repository. Its distribution functions are a
  parameter of the battery: the survival function of the chi-square distribution (degrees
  of freedom, then the statistic), the distribution function of the standard normal, and
  the statistic and p-value of the one-sample Kolmogorov-Smirnov test against an
  exponential distribution with the given location and scale. What \<^verbatim>\<open>kstest\<close>
  does with an empty sample depends on the SciPy release (a ValueError, or a NaN result),
  so that too is a parameter.
\<close>

record stats_lib =
  chi2_sf :: "int \<Rightarrow> npfloat \<Rightarrow> npfloat"
  norm_cdf :: "npfloat \<Rightarrow> npfloat"
  ks_statistic :: "int list \<Rightarrow> npfloat \<Rightarrow> npfloat \<Rightarrow> npfloat"
  ks_pvalue :: "int list \<Rightarrow> npfloat \<Rightarrow> npfloat \<Rightarrow> npfloat"
  ks_empty :: "error + npfloat \<times> npfloat"

text \<open>
  \<^verbatim>\<open>stats.chisquare(f_obs, f_exp)\<close>: the two arrays are broadcast; a ValueError is
  raised when the sums of the observed and of the expected frequencies differ by more
  than the relative tolerance \<open>1e-8\<close>; the statistic is the sum of
  \<open>(f_obs - f_exp)\<^sup>2 / f_exp\<close>, the p-value the chi-square survival function at the
  statistic, with one degree of freedom less than there are terms.
\<close>

definition stats_chisquare ::
    "stats_lib \<Rightarrow> npfloat list \<Rightarrow> npfloat list \<Rightarrow> error + npfloat \<times> npfloat" where
  "stats_chisquare lib f_obs f_exp =
     (case np_broadcast f_obs f_exp of
        Inl e \<Rightarrow> Inl e
      | Inr (obs, exps) \<Rightarrow>
          if fgt (fdiv (fabs (fsub (fsum obs) (fsum exps))) (fmin (fsum obs) (fsum exps)))
               (Fin (1 / 10 ^ 8))
          then Inl ValueError
          else Inr (fsum (map2 (\<lambda>ob ex. fdiv (fmul (fsub ob ex) (fsub ob ex)) ex) obs exps),
                    chi2_sf lib (int (length obs) - 1)
                      (fsum (map2 (\<lambda>ob ex. fdiv (fmul (fsub ob ex) (fsub ob ex)) ex) obs exps))))"

text \<open>\<^verbatim>\<open>stats.kstest(data, 'expon', args=(loc, scale))\<close>.\<close>

definition stats_kstest_expon ::
    "stats_lib \<Rightarrow> int list \<Rightarrow> npfloat \<Rightarrow> npfloat \<Rightarrow> error + npfloat \<times> npfloat" where
  "stats_kstest_expon lib data loc scale =
     (if data = [] then ks_empty lib
      else Inr (ks_statistic lib data loc scale, ks_pvalue lib data loc scale))"

subsection \<open>The tester and its five tests\<close>

text \<open>
  The objects a test method can reach: the fields \<^verbatim>\<open>self.N\<close> and
  \<^verbatim>\<open>self.count\<close> of the tester, and the array \<^verbatim>\<open>numbers\<close> passed to it.
  A method returns its result (or the exception it raised) together with these objects as
  it leaves them.
\<close>

record state =
  self_N :: int
  self_count :: int
  numbers :: "int list"

text \<open>
  The result dictionaries. The entry for the test type (the first key of each dictionary,
  a Chinese string in the source) becomes the constructor, the other entries its arguments
  in the order of the dictionary; the conclusion string, one of two, becomes a boolean
  that is true for the first one (uniform, independent, gaps exponential, random, high
  entropy).
\<close>

datatype test_result =
    UniformityResult npfloat npfloat bool
  | IndependenceResult npfloat "nat list" bool
  | GapResult npfloat npfloat npfloat npfloat bool
  | RunsResult int npfloat npfloat npfloat bool
  | EntropyResult npfloat npfloat npfloat bool

text \<open>\<^verbatim>\<open>expected = np.ones(self.N) * self.count / self.N\<close>\<close>

definition uniformity_expected :: "int \<Rightarrow> int \<Rightarrow> npfloat list" where
  "uniformity_expected N cnt =
     replicate (nat N) (fdiv (fmul (Fin 1) (float_of_int cnt)) (float_of_int N))"

definition test_uniformity :: "stats_lib \<Rightarrow> state \<Rightarrow> (error + test_result) \<times> state" where
  "test_uniformity lib s =
     (case np_bincount (numbers s) (self_N s) of
        Inl e \<Rightarrow> (Inl e, s)
      | Inr observed \<Rightarrow>
          (case stats_chisquare lib (of_counts observed)
                  (uniformity_expected (self_N s) (self_count s)) of
             Inl e \<Rightarrow> (Inl e, s)
           | Inr (chi2, p_value) \<Rightarrow>
               (Inr (UniformityResult chi2 p_value (fgt p_value (Fin 0.05))), s)))"

text \<open>
  \<^verbatim>\<open>autocorr = np.correlate(numbers, numbers, mode='full')[len(numbers)-1:]\<close>, then
  \<^verbatim>\<open>autocorr / autocorr[0]\<close>: the true division of an int64 array by an int64
  scalar converts both to float64 and divides in float64.
\<close>

definition autocorr_normalized :: "int list \<Rightarrow> error + npfloat list" where
  "autocorr_normalized xs =
     (case np_correlate_full xs xs of
        Inl e \<Rightarrow> Inl e
      | Inr full \<Rightarrow>
          Inr (map (\<lambda>c. fdiv64 (float64_of_int c)
                          (float64_of_int (drop (length xs - 1) full ! 0)))
                 (drop (length xs - 1) full)))"

text \<open>
  The independence test. Its verdict compares the coefficients with
  \<^verbatim>\<open>ci = 1.96 / np.sqrt(len(numbers))\<close>, so the float64 operations are modelled
  with their rounding: the literal \<^verbatim>\<open>1.96\<close> is the float64 nearest to 1.96, the
  length is converted to float64, and the square root and the division round.
\<close>

definition test_independence :: "state \<Rightarrow> (error + test_result) \<times> state" where
  "test_independence s =
     (case autocorr_normalized (numbers s) of
        Inl e \<Rightarrow> (Inl e, s)
      | Inr autocorr \<Rightarrow>
          (let acf = take 10 (drop 1 autocorr);
               ci = fdiv64 (round64 1.96)
                      (fsqrt64 (float64_of_int (int (length (numbers s)))));
               significant = list_ex (\<lambda>v. fgt (fabs v) ci) acf
           in if acf = [] then (Inl ValueError, s)
              else (Inr (IndependenceResult
                      (np_max (map fabs acf))
                      (map fst (filter (\<lambda>(i, v). fgt (fabs v) ci) (zip [1..<Suc (length acf)] acf)))
                      (\<not> significant)), s)))"

text \<open>
  The loop of the gap test over \<^verbatim>\<open>enumerate(numbers)\<close>, with the list
  \<^verbatim>\<open>gaps\<close> and the dictionary \<^verbatim>\<open>last_pos\<close> as they are after each step.
\<close>

fun gap_loop :: "int list \<Rightarrow> nat \<Rightarrow> int list \<Rightarrow> (int \<rightharpoonup> nat) \<Rightarrow> int list" where
  "gap_loop [] i gaps last_pos = gaps"
| "gap_loop (num # rest) i gaps last_pos =
     gap_loop rest (Suc i)
       (case last_pos num of
          Some p \<Rightarrow> gaps @ [int i - int p]
        | None \<Rightarrow> gaps)
       (last_pos(num \<mapsto> i))"

definition test_gap_distribution ::
    "stats_lib \<Rightarrow> state \<Rightarrow> (error + test_result) \<times> state" where
  "test_gap_distribution lib s =
     (let gaps = gap_loop (numbers s) 0 [] Map.empty;
          mean_gap = np_mean (map float_of_int gaps);
          std_gap = np_std (map float_of_int gaps);
          lambda_est = fdiv (Fin 1) mean_gap
      in case stats_kstest_expon lib gaps (Fin 0) (fdiv (Fin 1) lambda_est) of
           Inl e \<Rightarrow> (Inl e, s)
         | Inr (ks_stat, p_value) \<Rightarrow>
             (Inr (GapResult mean_gap std_gap ks_stat p_value (fgt p_value (Fin 0.05))), s))"

text \<open>The loop of the runs test over \<^verbatim>\<open>range(1, len(numbers))\<close>.\<close>

definition count_runs :: "int list \<Rightarrow> int" where
  "count_runs xs =
     fold (\<lambda>i runs. if xs ! i \<noteq> xs ! (i - 1) then runs + 1 else runs) [1..<length xs] 1"

text \<open>
  \<^verbatim>\<open>1 + 2 * n1 * n2 / (n1 + n2)\<close> and
  \<^verbatim>\<open>np.sqrt(2 * n1 * n2 * (2 * n1 * n2 - n1 - n2) / ((n1 + n2)**2 * (n1 + n2 - 1)))\<close>,
  where \<^verbatim>\<open>n1\<close> and \<^verbatim>\<open>n2\<close> are int64 scalars: the products, sums and
  differences are int64, the division gives a float64.
\<close>

definition runs_expected :: "int \<Rightarrow> int \<Rightarrow> npfloat" where
  "runs_expected n1 n2 =
     fadd (Fin 1) (fdiv (float_of_int (mul64 (mul64 2 n1) n2)) (float_of_int (add64 n1 n2)))"

definition runs_std :: "int \<Rightarrow> int \<Rightarrow> npfloat" where
  "runs_std n1 n2 =
     fsqrt (fdiv
       (float_of_int (mul64 (mul64 (mul64 2 n1) n2) (sub64 (sub64 (mul64 (mul64 2 n1) n2) n1) n2)))
       (float_of_int (mul64 (sq64 (add64 n1 n2)) (sub64 (add64 n1 n2) 1))))"

definition test_runs :: "stats_lib \<Rightarrow> state \<Rightarrow> (error + test_result) \<times> state" where
  "test_runs lib s =
     (let runs = count_runs (numbers s)
      in case getitem (numbers s) 0 of
           Inl e \<Rightarrow> (Inl e, s)
         | Inr first \<Rightarrow>
             (let n1 = int (count_list (numbers s) first);
                  n2 = sub64 (int (length (numbers s))) n1;
                  expected_runs = runs_expected n1 n2;
                  std_runs = runs_std n1 n2;
                  z = fdiv (fsub (float_of_int runs) expected_runs) std_runs;
                  p_value = fmul (Fin 2) (fsub (Fin 1) (norm_cdf lib (fabs z)))
              in (Inr (RunsResult runs expected_runs z p_value (fgt p_value (Fin 0.05))), s)))"

definition test_entropy :: "state \<Rightarrow> (error + test_result) \<times> state" where
  "test_entropy s =
     (case np_bincount (numbers s) (self_N s) of
        Inl e \<Rightarrow> (Inl e, s)
      | Inr counts \<Rightarrow>
          (let probs = map (\<lambda>c. fdiv (Fin (real c)) (Fin (real (length (numbers s))))) counts;
               entropy = fneg (fsum (map (\<lambda>p. fmul p (flog2 (fadd p (Fin (1 / 10 ^ 10))))) probs));
               max_entropy = flog2 (float_of_int (self_N s));
               entropy_ratio = fdiv entropy max_entropy
           in (Inr (EntropyResult entropy max_entropy entropy_ratio
                      (fgt entropy_ratio (Fin 0.9))), s)))"

text \<open>
  \<^verbatim>\<open>run_all_tests\<close>: the loop \<^verbatim>\<open>for test in tests: results.append(test(numbers))\<close>.
  An exception of a test leaves the loop and the method.
\<close>

fun run_tests ::
    "(state \<Rightarrow> (error + test_result) \<times> state) list \<Rightarrow> test_result list \<Rightarrow> state
       \<Rightarrow> (error + test_result list) \<times> state" where
  "run_tests [] results s = (Inr results, s)"
| "run_tests (test # tests) results s =
     (case test s of
        (Inl e, s') \<Rightarrow> (Inl e, s')
      | (Inr r, s') \<Rightarrow> run_tests tests (results @ [r]) s')"

definition run_all_tests :: "stats_lib \<Rightarrow> state \<Rightarrow> (error + test_result list) \<times> state" where
  "run_all_tests lib s =
     run_tests [test_uniformity lib, test_independence, test_gap_distribution lib,
                test_runs lib, test_entropy] [] s"

text \<open>
  A stand-in for SciPy's distribution functions, to evaluate the battery on concrete
  inputs. No theorem depends on the values it returns. On an empty sample it returns a
  NaN statistic and a NaN p-value, as the current releases of SciPy do.
\<close>

definition lib0 :: stats_lib where
  "lib0 = \<lparr> chi2_sf = (\<lambda>df x. case x of Fin a \<Rightarrow> Fin (exp (- a / 2)) | PInf \<Rightarrow> Fin 0 | _ \<Rightarrow> NaN),
            norm_cdf = (\<lambda>z. case z of Fin a \<Rightarrow> Fin (1 / (1 + exp (- a))) | PInf \<Rightarrow> Fin 1
                              | NInf \<Rightarrow> Fin 0 | NaN \<Rightarrow> NaN),
            ks_statistic = (\<lambda>data loc scale. Fin 1),
            ks_pvalue = (\<lambda>data loc scale. Fin 0),
            ks_empty = Inr (NaN, NaN) \<rparr>"


text \<open>The perfectly periodic sequence: the block \<open>[0, 1, ..., N - 1]\<close> repeated \<open>k\<close> times.\<close>

definition periodic :: "nat \<Rightarrow> nat \<Rightarrow> int list" where
  "periodic N k = concat (replicate k (map int [0..<N]))"


text \<open>
  The invariant of the gap loop on a periodic sequence, before position \<open>i\<close>: every
  value that one of the next \<open>N\<close> positions holds was last seen \<open>N\<close> positions
  earlier, or never when that position would be negative.
\<close>

definition gap_inv :: "nat \<Rightarrow> nat \<Rightarrow> (int \<rightharpoonup> nat) \<Rightarrow> bool" where
  "gap_inv N i last_pos \<longleftrightarrow>
     (\<forall>j. i \<le> j \<and> j < i + N \<longrightarrow> last_pos (int (j mod N)) = (if N \<le> j then Some (j - N) else None))"

text \<open>
  The entropy the code computes for a one-valued distribution: \<open>log\<^sub>2 (1 + 1e-10)\<close>,
  the logarithm of the smoothed probability 1.
\<close>

definition eps_entropy :: real where
  "eps_entropy = log 2 (1 + 1 / 10 ^ 10)"


subsection \<open>Reference quantities of the claims\<close>

text \<open>
  The quantities the specification names, written from its words, to compare with what
  the code computes. The expected number of runs and the variance of the number of runs
  of the Wald-Wolfowitz test, for \<open>n1\<close> elements of one kind and \<open>n2\<close> of the other:
\<close>

definition ww_expected :: "int \<Rightarrow> int \<Rightarrow> real" where
  "ww_expected n1 n2 =
     1 + 2 * real_of_int n1 * real_of_int n2 / (real_of_int n1 + real_of_int n2)"

definition ww_variance :: "int \<Rightarrow> int \<Rightarrow> real" where
  "ww_variance n1 n2 =
     2 * real_of_int n1 * real_of_int n2
       * (2 * real_of_int n1 * real_of_int n2 - real_of_int n1 - real_of_int n2)
       / ((real_of_int n1 + real_of_int n2)\<^sup>2 * (real_of_int n1 + real_of_int n2 - 1))"

text \<open>
  The lag-\<open>k\<close> sum of products of the sequence with itself (the series is not centred on
  its mean), as a mathematical integer. The lag-\<open>k\<close> autocorrelation coefficient is the
  float64 quotient of the lag-\<open>k\<close> sum by the lag-0 sum, and the confidence band for a
  sequence of \<open>n\<close> elements is the float64 quotient of 1.96 (rounded to float64) by the
  float64 square root of \<open>n\<close>.
\<close>

definition lag_sum :: "int list \<Rightarrow> nat \<Rightarrow> int" where
  "lag_sum xs k = sum_list (map (\<lambda>n. xs ! (n + k) * xs ! n) [0..<length xs - k])"



text \<open>
  The entry of lag \<open>k\<close> of the array \<^verbatim>\<open>autocorr\<close> of the independence test, on any
  sequence: the int64 sums as they wrap around, converted to float64 and divided.
\<close>

definition acf_coeff :: "int list \<Rightarrow> nat \<Rightarrow> npfloat" where
  "acf_coeff xs k =
     fdiv64 (float64_of_int (wrap64 (lag_sum xs k))) (float64_of_int (wrap64 (lag_sum xs 0)))"

text \<open>
  The chi-square statistic of a sequence against \<open>N\<close> equally likely bins with the
  expected count \<open>cnt / N\<close> each.
\<close>

definition chi_square_statistic :: "int \<Rightarrow> int \<Rightarrow> int list \<Rightarrow> real" where
  "chi_square_statistic N cnt xs =
     sum_list (map (\<lambda>v. (real (count_list xs (int v)) - real_of_int cnt / real_of_int N)\<^sup>2
                          / (real_of_int cnt / real_of_int N)) [0..<nat N])"


section \<open>Properties of the generator\<close>

lemma comprehension_Inr:
  "(\<And>k. k \<in> set ks \<Longrightarrow> f k = Inr (h k)) \<Longrightarrow> comprehension f ks = Inr (map h ks)"
  by (induction ks) auto

lemma py_range_nonpos: "n \<le> 0 \<Longrightarrow> py_range n = []"
  by (simp add: py_range_def)

lemma py_range_pos: "1 \<le> n \<Longrightarrow> py_range n = 0 # [1..<nat n]"
  by (simp add: py_range_def upt_conv_Cons)

lemma length_py_range: "length (py_range n) = nat n"
  by (simp add: py_range_def)

lemma simple_random_empty: "cnt \<le> 0 \<Longrightarrow> simple_random g N cnt = Inr []"
  by (simp add: simple_random_def py_range_nonpos)

lemma simple_random_ok:
  "1 \<le> N \<Longrightarrow>
   simple_random g N cnt = Inr (map (\<lambda>k. int (raw_randint g k) mod N) (py_range cnt))"
  unfolding simple_random_def
  by (rule comprehension_Inr) (simp add: random_randint_def)

lemma simple_random_fails:
  "1 \<le> cnt \<Longrightarrow> N \<le> 0 \<Longrightarrow> simple_random g N cnt = Inl ValueError"
  by (simp add: simple_random_def py_range_pos random_randint_def)

lemma simple_random_length: "simple_random g N cnt = Inr xs \<Longrightarrow> length xs = nat cnt"
proof (cases "cnt \<le> 0")
  case True
  assume "simple_random g N cnt = Inr xs"
  then show ?thesis using True by (simp add: simple_random_empty)
next
  case False
  then have c: "1 \<le> cnt" by simp
  assume r: "simple_random g N cnt = Inr xs"
  show ?thesis
  proof (cases "N \<le> 0")
    case True
    then show ?thesis using r simple_random_fails [OF c True] by simp
  next
    case False
    then have "1 \<le> N" by simp
    from simple_random_ok [OF this] r show ?thesis by (auto simp: length_py_range)
  qed
qed


lemma clip_trunc_range:
  assumes "1 \<le> N"
  shows "0 \<le> astype_int (np_clip x 0 (real_of_int (N - 1)))
     \<and> astype_int (np_clip x 0 (real_of_int (N - 1))) \<le> N - 1"
proof -
  define y where "y = np_clip x 0 (real_of_int (N - 1))"
  have lo: "0 \<le> y" and hi: "y \<le> real_of_int (N - 1)"
    using assms by (auto simp: y_def np_clip_def min_def max_def)
  have "astype_int y = \<lfloor>y\<rfloor>" using lo by (simp add: astype_int_def)
  moreover have "0 \<le> \<lfloor>y\<rfloor>" using lo by simp
  moreover have "\<lfloor>y\<rfloor> \<le> N - 1" using floor_mono [OF hi] by simp
  ultimately show ?thesis unfolding y_def by simp
qed

lemma clip_int_range:
  "1 \<le> N \<Longrightarrow> 0 \<le> np_clip (x::int) 0 (N - 1) \<and> np_clip x 0 (N - 1) \<le> N - 1"
  unfolding np_clip_def by (auto simp: min_def max_def)

lemma in_range_clip_trunc:
  "1 \<le> N \<Longrightarrow> in_range N (map (\<lambda>x. astype_int (np_clip x 0 (real_of_int (N - 1)))) ys)"
  using clip_trunc_range by (simp add: in_range_def list_all_iff del: of_int_diff)

lemma in_range_clip_int:
  "1 \<le> N \<Longrightarrow> in_range N (map (\<lambda>x. np_clip x 0 (N - 1)) (ys::int list))"
  using clip_int_range by (simp add: in_range_def list_all_iff)

lemma simple_random_valid:
  assumes "1 \<le> N"
  shows "\<exists>xs. simple_random g N cnt = Inr xs \<and> length xs = nat cnt \<and> in_range N xs"
  using assms by (simp add: simple_random_ok length_py_range in_range_def list_all_iff)

text \<open>
  The true division of an integer of at most 53 bits by 2, 4 or 6 is finite; the one of
  an integer of 1027 bits or more by 2 or 4 is not.
\<close>

lemma real_abs_le_2_53: "\<bar>N\<bar> \<le> 2 ^ 53 \<Longrightarrow> \<bar>real_of_int N\<bar> \<le> 2 ^ 53"
proof -
  assume "\<bar>N\<bar> \<le> 2 ^ 53"
  then have "real_of_int \<bar>N\<bar> \<le> real_of_int (2 ^ 53)" by (simp only: of_int_le_iff)
  then show ?thesis by simp
qed

lemma py_truediv_ok:
  assumes "\<bar>N\<bar> \<le> 2 ^ 53" "1 \<le> b"
  shows "py_truediv N b = Inr (real_of_int N / real_of_int b)"
proof -
  have "\<bar>real_of_int N / real_of_int b\<bar> = \<bar>real_of_int N\<bar> / real_of_int b"
    using assms(2) by simp
  also have "\<dots> \<le> \<bar>real_of_int N\<bar> / 1" using assms(2) by (intro divide_left_mono) auto
  also have "\<dots> \<le> 2 ^ 53" using real_abs_le_2_53 [OF assms(1)] by simp
  also have "\<dots> < 2 ^ 1024 - 2 ^ 970" by simp
  finally show ?thesis by (simp add: py_truediv_def)
qed


lemma default_param_None: "default_param None N b = py_truediv N b"
  by (simp add: default_param_def)

lemma uniform_random_zero: "uniform_random g N 0 = Inr []"
  by (simp add: uniform_random_def np_random_randint_def)


lemma uniform_random_ok:
  assumes "1 \<le> N" "N \<le> 2 ^ 63" "0 \<le> cnt"
  shows "uniform_random g N cnt
     = Inr (map (\<lambda>k. int (raw_np_randint g k) mod N) (py_range cnt))"
  using assms by (auto simp: uniform_random_def np_random_randint_def py_range_def)

lemma uniform_random_valid:
  assumes "1 \<le> N" "N \<le> 2 ^ 63" "0 \<le> cnt"
  shows "\<exists>xs. uniform_random g N cnt = Inr xs \<and> length xs = nat cnt \<and> in_range N xs"
  using assms
  by (simp add: uniform_random_ok length_py_range in_range_def list_all_iff)

lemma normal_random_run:
  assumes "\<bar>N\<bar> \<le> 2 ^ 53"
  shows "normal_random g N cnt None None =
     (if N < 0 \<or> cnt < 0 then Inl ValueError
      else Inr (map (\<lambda>x. astype_int (np_clip x 0 (real_of_int (N - 1))))
                  (map (\<lambda>k. real_of_int N / 2 + real_of_int N / 6 * raw_normal g k)
                     (py_range cnt))))"
proof -
  have m: "default_param None N 2 = Inr (real_of_int N / 2)"
    using py_truediv_ok [OF assms, of 2] by (simp add: default_param_None)
  have s: "default_param None N 6 = Inr (real_of_int N / 6)"
    using py_truediv_ok [OF assms, of 6] by (simp add: default_param_None)
  show ?thesis
    unfolding normal_random_def m s sum.case np_random_normal_def
    by (simp del: of_int_diff)
qed

lemma exponential_random_run:
  assumes "\<bar>N\<bar> \<le> 2 ^ 53"
  shows "exponential_random g N cnt None =
     (if N < 0 \<or> cnt < 0 then Inl ValueError
      else Inr (map (\<lambda>x. astype_int (np_clip x 0 (real_of_int (N - 1))))
                  (map (\<lambda>k. real_of_int N / 4 * \<bar>raw_exponential g k\<bar>) (py_range cnt))))"
proof -
  have s: "default_param None N 4 = Inr (real_of_int N / 4)"
    using py_truediv_ok [OF assms, of 4] by (simp add: default_param_None)
  show ?thesis
    unfolding exponential_random_def s sum.case np_random_exponential_def
    by (simp del: of_int_diff)
qed

lemma poisson_random_run:
  assumes "\<bar>N\<bar> \<le> 2 ^ 53"
  shows "poisson_random g N cnt None =
     (if N < 0 \<or> cnt < 0 then Inl ValueError
      else Inr (map (\<lambda>x. np_clip x 0 (N - 1)) (map (\<lambda>k. int (raw_poisson g k)) (py_range cnt))))"
proof -
  have s: "default_param None N 2 = Inr (real_of_int N / 2)"
    using py_truediv_ok [OF assms, of 2] by (simp add: default_param_None)
  have "real_of_int N / 2 \<le> \<bar>real_of_int N\<bar> / 1" by (simp add: field_simps)
  also have "\<dots> \<le> 2 ^ 53" using real_abs_le_2_53 [OF assms] by simp
  finally have "\<not> 9223372006484770816 < real_of_int N / 2" by simp
  then show ?thesis
    unfolding poisson_random_def s sum.case np_random_poisson_def
    by simp
qed

lemma default_df_None:
  assumes "\<bar>N\<bar> \<le> 2 ^ 53"
  shows "\<exists>d. default_df None N = Inr d \<and> (d \<le> 0 \<longleftrightarrow> N \<le> 1)"
proof -
  have h: "py_truediv N 2 = Inr (real_of_int N / 2)"
    using py_truediv_ok [OF assms, of 2] by simp
  have "py_int (real_of_int N / 2) \<le> 0 \<longleftrightarrow> N \<le> 1"
  proof (cases "0 \<le> N")
    case True
    then have "py_int (real_of_int N / 2) = N div 2"
      using floor_divide_of_int_eq [of N 2, where ?'a = real] by (simp add: py_int_def)
    then show ?thesis using True by auto
  next
    case False
    then have "real_of_int N / 2 \<le> 0" by simp
    then have "\<lceil>real_of_int N / 2\<rceil> \<le> 0" by (simp add: ceiling_le_iff)
    then show ?thesis using False by (simp add: py_int_def)
  qed
  then show ?thesis by (simp add: default_df_def h)
qed

lemma chi_square_random_run:
  assumes "\<bar>N\<bar> \<le> 2 ^ 53"
  shows "chi_square_random g N cnt None =
     (if N \<le> 1 \<or> cnt < 0 then Inl ValueError
      else Inr (map (\<lambda>x. astype_int (np_clip x 0 (real_of_int (N - 1))))
                  (map (\<lambda>k. \<bar>raw_chisquare g k\<bar>) (py_range cnt))))"
proof -
  obtain d where d: "default_df None N = Inr d" "d \<le> 0 \<longleftrightarrow> N \<le> 1"
    using default_df_None [OF assms] by blast
  have "real_of_int d \<le> 0 \<longleftrightarrow> N \<le> 1" using d(2) by simp
  then show ?thesis
    unfolding chi_square_random_def d(1) sum.case np_random_chisquare_def
    by (simp del: of_int_diff)
qed

lemma normal_random_valid:
  assumes "1 \<le> N" "N \<le> 2 ^ 53" "0 \<le> cnt"
  shows "\<exists>xs. normal_random g N cnt None None = Inr xs \<and> length xs = nat cnt \<and> in_range N xs"
proof -
  define ys where "ys = map (\<lambda>k. real_of_int N / 2 + real_of_int N / 6 * raw_normal g k)
      (py_range cnt)"
  have a: "\<bar>N\<bar> \<le> 2 ^ 53" and c: "\<not> (N < 0 \<or> cnt < 0)" using assms by simp_all
  have r: "normal_random g N cnt None None
      = Inr (map (\<lambda>x. astype_int (np_clip x 0 (real_of_int (N - 1)))) ys)"
    unfolding normal_random_run [OF a] ys_def using c by (simp only: if_False)
  have l: "length (map (\<lambda>x. astype_int (np_clip x 0 (real_of_int (N - 1)))) ys) = nat cnt"
    by (simp add: ys_def length_py_range)
  show ?thesis
    by (intro exI conjI) (rule r, rule l, rule in_range_clip_trunc [OF assms(1)])
qed

lemma exponential_random_valid:
  assumes "1 \<le> N" "N \<le> 2 ^ 53" "0 \<le> cnt"
  shows "\<exists>xs. exponential_random g N cnt None = Inr xs \<and> length xs = nat cnt \<and> in_range N xs"
proof -
  define ys where "ys = map (\<lambda>k. real_of_int N / 4 * \<bar>raw_exponential g k\<bar>) (py_range cnt)"
  have a: "\<bar>N\<bar> \<le> 2 ^ 53" and c: "\<not> (N < 0 \<or> cnt < 0)" using assms by simp_all
  have r: "exponential_random g N cnt None
      = Inr (map (\<lambda>x. astype_int (np_clip x 0 (real_of_int (N - 1)))) ys)"
    unfolding exponential_random_run [OF a] ys_def using c by (simp only: if_False)
  have l: "length (map (\<lambda>x. astype_int (np_clip x 0 (real_of_int (N - 1)))) ys) = nat cnt"
    by (simp add: ys_def length_py_range)
  show ?thesis
    by (intro exI conjI) (rule r, rule l, rule in_range_clip_trunc [OF assms(1)])
qed

lemma poisson_random_valid:
  assumes "1 \<le> N" "N \<le> 2 ^ 53" "0 \<le> cnt"
  shows "\<exists>xs. poisson_random g N cnt None = Inr xs \<and> length xs = nat cnt \<and> in_range N xs"
proof -
  define ys where "ys = map (\<lambda>k. int (raw_poisson g k)) (py_range cnt)"
  have a: "\<bar>N\<bar> \<le> 2 ^ 53" and c: "\<not> (N < 0 \<or> cnt < 0)" using assms by simp_all
  have r: "poisson_random g N cnt None = Inr (map (\<lambda>x. np_clip x 0 (N - 1)) ys)"
    unfolding poisson_random_run [OF a] ys_def using c by (simp only: if_False)
  have l: "length (map (\<lambda>x. np_clip x 0 (N - 1)) ys) = nat cnt"
    by (simp add: ys_def length_py_range)
  show ?thesis
    by (intro exI conjI) (rule r, rule l, rule in_range_clip_int [OF assms(1)])
qed

lemma chi_square_random_valid:
  assumes "2 \<le> N" "N \<le> 2 ^ 53" "0 \<le> cnt"
  shows "\<exists>xs. chi_square_random g N cnt None = Inr xs \<and> length xs = nat cnt \<and> in_range N xs"
proof -
  define ys where "ys = map (\<lambda>k. \<bar>raw_chisquare g k\<bar>) (py_range cnt)"
  have a: "\<bar>N\<bar> \<le> 2 ^ 53" and c: "\<not> (N \<le> 1 \<or> cnt < 0)" and N1: "1 \<le> N"
    using assms by simp_all
  have r: "chi_square_random g N cnt None
      = Inr (map (\<lambda>x. astype_int (np_clip x 0 (real_of_int (N - 1)))) ys)"
    unfolding chi_square_random_run [OF a] ys_def using c by (simp only: if_False)
  have l: "length (map (\<lambda>x. astype_int (np_clip x 0 (real_of_int (N - 1)))) ys) = nat cnt"
    by (simp add: ys_def length_py_range)
  show ?thesis
    by (intro exI conjI) (rule r, rule l, rule in_range_clip_trunc [OF N1])
qed

lemma chi_square_random_one: "chi_square_random g 1 cnt None = Inl ValueError"
  using chi_square_random_run [of 1 g cnt] by simp

lemma length_multinomial_split: "length (multinomial_split raw k left d) = d"
  by (induction raw k left d rule: multinomial_split.induct) auto

lemma sum_multinomial_split:
  "0 < d \<Longrightarrow> sum_list (multinomial_split raw k left d) = left"
  by (induction raw k left d rule: multinomial_split.induct) auto

lemma multinomial_ok:
  assumes "list_all is_probability pvals"
      and "\<not> fgt (fsum (butlast pvals)) (Fin (1 + 1 / 10 ^ 12))"
  shows "np_random_multinomial g cnt pvals
     = (if cnt < 0 then Inl ValueError
        else Inr (map int (multinomial_split (raw_multinomial g) 0 (nat cnt) (length pvals))))"
  using assms by (simp add: np_random_multinomial_def)

lemma multinomial_default:
  "np_random_multinomial g cnt (normalize_weights default_weights)
     = (if cnt < 0 then Inl ValueError
        else Inr (map int (multinomial_split (raw_multinomial g) 0 (nat cnt) 5)))"
proof -
  let ?p = "normalize_weights default_weights"
  have a: "list_all is_probability ?p"
    by (simp add: is_probability_def normalize_weights_def default_weights_def)
  have b: "\<not> fgt (fsum (butlast ?p)) (Fin (1 + 1 / 10 ^ 12))"
    by (simp add: fsum_def normalize_weights_def default_weights_def)
  have c: "length ?p = 5" by (simp add: normalize_weights_def default_weights_def)
  show ?thesis using multinomial_ok [OF a b, of g cnt] unfolding c .
qed

lemma list5:
  assumes "length cs = 5"
  obtains a b c d e where "cs = [a, b, c, d, e]"
proof -
  from assms obtain a t1 where 1: "cs = a # t1" "length t1 = 4"
    by (cases cs) auto
  then obtain b t2 where 2: "t1 = b # t2" "length t2 = 3" by (cases t1) auto
  then obtain c t3 where 3: "t2 = c # t3" "length t3 = 2" by (cases t2) auto
  then obtain d t4 where 4: "t3 = d # t4" "length t4 = 1" by (cases t3) auto
  then obtain e where 5: "t4 = [e]" by (cases t4) auto
  show ?thesis using that 1 2 3 4 5 by simp
qed

lemma mset_shuffle_loop:
  "i < length xs \<Longrightarrow> mset (shuffle_loop raw i xs) = mset xs"
proof (induction i arbitrary: xs)
  case 0
  then show ?case by simp
next
  case (Suc i)
  let ?j = "raw (Suc i) mod Suc (Suc i)"
  have j: "?j < length xs" using Suc.prems
  proof -
    have "?j < Suc (Suc i)" by (rule mod_less_divisor) simp
    then show ?thesis using Suc.prems by linarith
  qed
  have "mset (xs[Suc i := xs ! ?j, ?j := xs ! Suc i]) = mset xs"
    using mset_swap [OF j Suc.prems] .
  moreover have "i < length (xs[Suc i := xs ! ?j, ?j := xs ! Suc i])"
    using Suc.prems by simp
  ultimately show ?case using Suc.IH by simp
qed

lemma mset_random_shuffle: "mset (random_shuffle g xs) = mset xs"
proof (cases xs)
  case Nil
  then show ?thesis by (simp add: random_shuffle_def)
next
  case (Cons a list)
  then have "length xs - 1 < length xs" by simp
  then show ?thesis unfolding random_shuffle_def by (rule mset_shuffle_loop)
qed

lemma length_random_shuffle: "length (random_shuffle g xs) = length xs"
  by (rule mset_eq_length) (rule mset_random_shuffle)

lemma in_range_random_shuffle: "in_range N (random_shuffle g xs) = in_range N xs"
proof -
  have "set (random_shuffle g xs) = set xs"
    by (rule mset_eq_setD) (rule mset_random_shuffle)
  then show ?thesis by (simp add: in_range_def list_all_iff)
qed

lemma in_range_append: "in_range N (xs @ ys) \<longleftrightarrow> in_range N xs \<and> in_range N ys"
  by (simp add: in_range_def)



lemma multinomial_negative:
  "cnt < 0 \<Longrightarrow> np_random_multinomial g cnt pvals = Inl ValueError"
  by (simp add: np_random_multinomial_def)

lemma mixed_distribution_negative:
  "cnt < 0 \<Longrightarrow> mixed_distribution g N cnt weights = Inl ValueError"
  by (simp add: mixed_distribution_def multinomial_negative)

lemma mixed_counts:
  assumes "0 \<le> cnt"
  obtains a b c d e where
    "np_random_multinomial g cnt (normalize_weights default_weights)
       = Inr [int a, int b, int c, int d, int e]"
    and "a + b + c + d + e = nat cnt"
proof -
  let ?cs = "multinomial_split (raw_multinomial g) 0 (nat cnt) 5"
  have "length ?cs = 5" by (rule length_multinomial_split)
  then obtain a b c d e where cs: "?cs = [a, b, c, d, e]" by (rule list5)
  have "sum_list ?cs = nat cnt" by (rule sum_multinomial_split) simp
  then have "a + b + c + d + e = nat cnt" unfolding cs by simp
  moreover have "np_random_multinomial g cnt (normalize_weights default_weights)
       = Inr [int a, int b, int c, int d, int e]"
    unfolding multinomial_default using assms cs by simp
  ultimately show ?thesis using that by blast
qed


lemma mixed_distribution_valid:
  assumes N: "2 \<le> N" and N53: "N \<le> 2 ^ 53" and cnt: "0 \<le> cnt"
  shows "\<exists>xs. mixed_distribution g N cnt None = Inr xs \<and> length xs = nat cnt \<and> in_range N xs"
proof -
  have N1: "1 \<le> N" using N by simp
  have N63: "N \<le> 2 ^ 63" using N53 by simp
  obtain a b c d e where
    m: "np_random_multinomial g cnt (normalize_weights default_weights)
       = Inr [int a, int b, int c, int d, int e]"
    and total: "a + b + c + d + e = nat cnt"
    by (rule mixed_counts [OF cnt])
  let ?counts = "[int a, int b, int c, int d, int e]"
  obtain x0 where x0: "uniform_random g N (int a) = Inr x0" "length x0 = a" "in_range N x0"
    using uniform_random_valid [OF N1 N63, of "int a" g] by auto
  obtain x1 where x1: "normal_random g N (int b) None None = Inr x1" "length x1 = b"
      "in_range N x1"
    using normal_random_valid [OF N1 N53, of "int b" g] by auto
  obtain x2 where x2: "exponential_random g N (int c) None = Inr x2" "length x2 = c"
      "in_range N x2"
    using exponential_random_valid [OF N1 N53, of "int c" g] by auto
  obtain x3 where x3: "poisson_random g N (int d) None = Inr x3" "length x3 = d"
      "in_range N x3"
    using poisson_random_valid [OF N1 N53, of "int d" g] by auto
  obtain x4 where x4: "chi_square_random g N (int e) None = Inr x4" "length x4 = e"
      "in_range N x4"
    using chi_square_random_valid [OF N N53, of "int e" g] by auto
  have e0: "extend_with [] ?counts 0 (uniform_random g N) = Inr x0"
    using x0(1) by (simp add: extend_with_def getitem_def)
  have e1: "extend_with x0 ?counts 1 (\<lambda>c. normal_random g N c None None) = Inr (x0 @ x1)"
    using x1(1) by (simp add: extend_with_def getitem_def)
  have e2: "extend_with (x0 @ x1) ?counts 2 (\<lambda>c. exponential_random g N c None)
      = Inr (x0 @ x1 @ x2)"
    using x2(1) by (simp add: extend_with_def getitem_def)
  have e3: "extend_with (x0 @ x1 @ x2) ?counts 3 (\<lambda>c. poisson_random g N c None)
      = Inr (x0 @ x1 @ x2 @ x3)"
    using x3(1) by (simp add: extend_with_def getitem_def)
  have e4: "extend_with (x0 @ x1 @ x2 @ x3) ?counts 4 (\<lambda>c. chi_square_random g N c None)
      = Inr (x0 @ x1 @ x2 @ x3 @ x4)"
    using x4(1) by (simp add: extend_with_def getitem_def)
  have r: "mixed_distribution g N cnt None = Inr (random_shuffle g (x0 @ x1 @ x2 @ x3 @ x4))"
    unfolding mixed_distribution_def
    by (simp only: Let_def option.case m sum.case e0 e1 e2 e3 e4)
  have "length (random_shuffle g (x0 @ x1 @ x2 @ x3 @ x4)) = nat cnt"
    using x0(2) x1(2) x2(2) x3(2) x4(2) total by (simp add: length_random_shuffle)
  moreover have "in_range N (random_shuffle g (x0 @ x1 @ x2 @ x3 @ x4))"
    using x0(3) x1(3) x2(3) x3(3) x4(3) by (simp add: in_range_random_shuffle in_range_append)
  ultimately show ?thesis using r by simp
qed

text \<open>
  For \<open>N \<le> 1\<close> the mixed sampler always raises ValueError: one of the first four
  samplers rejects \<open>N\<close>, or the chi-square sampler rejects its default number of degrees
  of freedom.
\<close>

lemma mixed_distribution_small:
  assumes "\<bar>N\<bar> \<le> 2 ^ 53" "N \<le> 1"
  shows "mixed_distribution g N cnt None = Inl ValueError"
proof (cases "cnt < 0")
  case True
  then show ?thesis by (rule mixed_distribution_negative)
next
  case False
  then have cnt: "0 \<le> cnt" by simp
  obtain a b c d e where
    m: "np_random_multinomial g cnt (normalize_weights default_weights)
       = Inr [int a, int b, int c, int d, int e]"
    and "a + b + c + d + e = nat cnt"
    by (rule mixed_counts [OF cnt])
  have u: "uniform_random g N (int a) = Inl ValueError \<or> (\<exists>xs. uniform_random g N (int a) = Inr xs)"
    by (auto simp: uniform_random_def np_random_randint_def)
  have n: "normal_random g N (int b) None None = Inl ValueError
      \<or> (\<exists>xs. normal_random g N (int b) None None = Inr xs)"
    by (simp add: normal_random_run [OF assms(1)])
  have x: "exponential_random g N (int c) None = Inl ValueError
      \<or> (\<exists>xs. exponential_random g N (int c) None = Inr xs)"
    by (simp add: exponential_random_run [OF assms(1)])
  have p: "poisson_random g N (int d) None = Inl ValueError
      \<or> (\<exists>xs. poisson_random g N (int d) None = Inr xs)"
    by (simp add: poisson_random_run [OF assms(1)])
  have ch: "\<And>k. chi_square_random g N k None = Inl ValueError"
    using assms(2) by (simp add: chi_square_random_run [OF assms(1)])
  show ?thesis
    unfolding mixed_distribution_def
    using u n x p
    by (auto simp: Let_def m extend_with_def getitem_def ch)
qed

lemma mixed_distribution_one: "mixed_distribution g 1 cnt None = Inl ValueError"
  by (rule mixed_distribution_small) simp_all

lemma generate_valid:
  assumes "2 \<le> N" "N \<le> 2 ^ 53" "0 \<le> cnt"
  shows "\<exists>xs. generate g d N cnt = Inr xs \<and> length xs = nat cnt \<and> in_range N xs"
proof -
  have N1: "1 \<le> N" using assms(1) by simp
  have N63: "N \<le> 2 ^ 63" using assms(2) by simp
  show ?thesis
  proof (cases d)
    case SimpleModulo
    then show ?thesis using simple_random_valid [OF N1] by simp
  next
    case Uniform
    then show ?thesis using uniform_random_valid [OF N1 N63 assms(3)] by simp
  next
    case Normal
    then show ?thesis using normal_random_valid [OF N1 assms(2,3)] by simp
  next
    case Exponential
    then show ?thesis using exponential_random_valid [OF N1 assms(2,3)] by simp
  next
    case Poisson
    then show ?thesis using poisson_random_valid [OF N1 assms(2,3)] by simp
  next
    case ChiSquare
    then show ?thesis using chi_square_random_valid [OF assms] by simp
  next
    case Mixed
    then show ?thesis using mixed_distribution_valid [OF assms] by simp
  qed
qed




























subsection \<open>Claims on the generator\<close>

text \<open>
  C1. The claim: for every \<open>N > 0\<close>, every \<open>count \<ge> 0\<close> and every distribution, the
  generator returns exactly \<open>count\<close> integers of \<open>[0, N - 1]\<close>. The code breaks it at
  \<open>N = 1\<close>: the default number of degrees of freedom of the chi-square sampler,
  \<^verbatim>\<open>int(N / 2)\<close>, is then 0, which \<^verbatim>\<open>np.random.chisquare\<close> rejects. So the
  ChiSquare variant raises ValueError whatever the count, and so does the Mixed variant,
  which calls the chi-square sampler for its fifth part.
\<close>

theorem chi_square_fails_at_N1:
  "generate g ChiSquare 1 cnt = Inl ValueError \<and> generate g Mixed 1 cnt = Inl ValueError"
  by (simp add: chi_square_random_one mixed_distribution_one)

theorem chi_square_fails_at_N1_witness:
  "generate rng0 ChiSquare 1 5 = Inl ValueError \<and> generate rng0 Mixed 1 5 = Inl ValueError"
  using chi_square_fails_at_N1 [of rng0 5] .




section \<open>Properties of the float64 rounding\<close>















lemma round64_0: "round64 0 = Fin 0"
  by (simp add: round64_def round_nearest_def)

section \<open>Properties of the test battery\<close>

subsection \<open>No test writes to the tester or to the sequence\<close>

lemma snd_test_uniformity: "snd (test_uniformity lib s) = s"
  by (simp add: test_uniformity_def split: sum.splits prod.splits)

lemma snd_test_independence: "snd (test_independence s) = s"
  by (simp add: test_independence_def Let_def split: sum.splits)

lemma snd_test_gap_distribution: "snd (test_gap_distribution lib s) = s"
  by (simp add: test_gap_distribution_def Let_def split: sum.splits prod.splits)

lemma snd_test_runs: "snd (test_runs lib s) = s"
  by (simp add: test_runs_def Let_def split: sum.splits)

lemma snd_test_entropy: "snd (test_entropy s) = s"
  by (simp add: test_entropy_def Let_def split: sum.splits)

lemma snd_run_tests:
  "(\<And>t s. t \<in> set tests \<Longrightarrow> snd (t s) = s) \<Longrightarrow> snd (run_tests tests results s) = s"
proof (induction tests arbitrary: results s)
  case Nil
  then show ?case by simp
next
  case (Cons t tests)
  have t: "snd (t s) = s" using Cons.prems by simp
  show ?case
  proof (cases "t s")
    case (Pair r s')
    with t have s': "s' = s" by simp
    show ?thesis
    proof (cases r)
      case (Inl e)
      with Pair s' show ?thesis by simp
    next
      case (Inr v)
      have "snd (run_tests tests (results @ [v]) s) = s"
        using Cons.prems by (intro Cons.IH) simp
      with Pair Inr s' show ?thesis by simp
    qed
  qed
qed

lemma snd_run_all_tests: "snd (run_all_tests lib s) = s"
  unfolding run_all_tests_def
  by (rule snd_run_tests)
     (auto simp: snd_test_uniformity snd_test_independence snd_test_gap_distribution
        snd_test_runs snd_test_entropy)

subsection \<open>Gap loop on a periodic sequence\<close>

lemma periodic_eq: "periodic N k = map (\<lambda>j. int (j mod N)) [0..<k * N]"
proof (induction k)
  case 0
  then show ?case by (simp add: periodic_def)
next
  case (Suc k)
  have r: "replicate (Suc k) (map int [0..<N])
      = replicate k (map int [0..<N]) @ [map int [0..<N]]"
    by (simp add: replicate_append_same)
  have "periodic N (Suc k) = periodic N k @ map int [0..<N]"
    unfolding periodic_def r by simp
  also have "map int [0..<N] = map (\<lambda>j. int (j mod N)) [k * N..<k * N + N]"
  proof -
    have "[k * N..<k * N + N] = map (\<lambda>i. i + k * N) [0..<N]"
      using map_add_upt [of "k * N" N] by (simp add: add.commute)
    then have "map (\<lambda>j. int (j mod N)) [k * N..<k * N + N]
        = map (\<lambda>i. int ((i + k * N) mod N)) [0..<N]"
      by (simp add: comp_def)
    also have "\<dots> = map int [0..<N]" by (rule map_cong) auto
    finally show ?thesis by simp
  qed
  finally have "periodic N (Suc k)
      = periodic N k @ map (\<lambda>j. int (j mod N)) [k * N..<k * N + N]" .
  moreover have "[0..<Suc k * N] = [0..<k * N] @ [k * N..<k * N + N]"
    using upt_add_eq_append [of 0 "k * N" N] by (simp add: add.commute)
  ultimately show ?case using Suc.IH by simp
qed

lemma gap_inv_step:
  assumes "0 < N" "gap_inv N i lp"
  shows "gap_inv N (Suc i) (lp(int (i mod N) \<mapsto> i))"
  unfolding gap_inv_def
proof (intro allI impI)
  fix j assume j: "Suc i \<le> j \<and> j < Suc i + N"
  show "(lp(int (i mod N) \<mapsto> i)) (int (j mod N)) = (if N \<le> j then Some (j - N) else None)"
  proof (cases "j = i + N")
    case True
    then show ?thesis using assms(1) by simp
  next
    case False
    with j have lt: "i < j" "j < i + N" by auto
    have "j mod N \<noteq> i mod N"
    proof
      assume eq: "j mod N = i mod N"
      have "(j - i) mod N = 0" using eq lt(1)
        by (metis less_imp_le_nat mod_eq_dvd_iff_nat dvd_imp_mod_0)
      moreover have "0 < j - i" "j - i < N" using lt by auto
      ultimately show False by simp
    qed
    moreover have "lp (int (j mod N)) = (if N \<le> j then Some (j - N) else None)"
      using assms(2) lt unfolding gap_inv_def by simp
    ultimately show ?thesis by simp
  qed
qed

lemma gap_loop_periodic_aux:
  assumes "0 < N"
  shows "gap_inv N i lp \<Longrightarrow>
     gap_loop (map (\<lambda>j. int (j mod N)) [i..<M]) i gaps lp
       = gaps @ replicate (M - max i N) (int N)"
proof (induction "M - i" arbitrary: i gaps lp)
  case 0
  then show ?case by simp
next
  case (Suc d)
  then have iM: "i < M" by simp
  have lp_i: "lp (int (i mod N)) = (if N \<le> i then Some (i - N) else None)"
    using Suc.prems assms unfolding gap_inv_def by simp
  have step: "gap_inv N (Suc i) (lp(int (i mod N) \<mapsto> i))"
    using gap_inv_step [OF assms Suc.prems] .
  have d: "d = M - Suc i" using Suc.hyps(2) by simp
  have unfold: "[i..<M] = i # [Suc i..<M]" using iM by (simp add: upt_conv_Cons)
  show ?case
  proof (cases "N \<le> i")
    case True
    then have "int i - int (i - N) = int N" by simp
    moreover have "M - max i N = Suc (M - max (Suc i) N)" using True iM by (simp add: max_def)
    ultimately show ?thesis
      using Suc.hyps(1) [OF d step] lp_i True
      by (simp add: unfold replicate_append_same)
  next
    case False
    then have "M - max i N = M - max (Suc i) N" by (simp add: max_def)
    then show ?thesis
      using Suc.hyps(1) [OF d step] lp_i False by (simp add: unfold)
  qed
qed

lemma gap_loop_periodic:
  assumes "0 < N"
  shows "gap_loop (periodic N k) 0 [] Map.empty = replicate ((k - 1) * N) (int N)"
proof -
  have inv: "gap_inv N 0 Map.empty" unfolding gap_inv_def by simp
  have "k * N - max 0 N = (k - 1) * N" by (simp add: diff_mult_distrib)
  then show ?thesis
    using gap_loop_periodic_aux [OF assms inv, of "k * N" "[]"] by (simp add: periodic_eq)
qed

lemma foldl_fadd_Fin: "foldl fadd (Fin a) (map Fin rs) = Fin (a + sum_list rs)"
  by (induction rs arbitrary: a) (simp_all add: add.assoc)

lemma fsum_Fin: "fsum (map Fin rs) = Fin (sum_list rs)"
  by (simp add: fsum_def foldl_fadd_Fin)

lemma fold_max_le: "a \<le> b \<Longrightarrow> (\<And>x. x \<in> set xs \<Longrightarrow> x \<le> b) \<Longrightarrow> fold max xs (a::int) \<le> b"
  by (induction xs arbitrary: a) auto

lemma np_bincount_in_range:
  assumes "0 \<le> N" "in_range N xs"
  shows "np_bincount xs N = Inr (map (\<lambda>v. count_list xs (int v)) [0..<nat N])"
proof -
  have "fold max xs (- 1) \<le> N - 1"
    using assms by (intro fold_max_le) (auto simp: in_range_def list_all_iff)
  then have "max (nat N) (nat (fold max xs (- 1) + 1)) = nat N" by simp
  moreover have "\<not> list_ex (\<lambda>x. x < 0) xs"
    using assms(2) by (auto simp: in_range_def list_all_iff list_ex_iff)
  ultimately show ?thesis using assms(1) by (simp add: np_bincount_def)
qed

lemma count_list_replicate: "count_list (replicate n x) y = (if x = y then n else 0)"
  by (induction n) auto

lemma fold_id: "(\<And>i. i \<in> set is \<Longrightarrow> f i a = a) \<Longrightarrow> fold f is a = a"
  by (induction "is") auto

lemma count_runs_replicate: "count_runs (replicate n v) = 1"
  unfolding count_runs_def by (rule fold_id) (simp add: less_imp_diff_less)

lemma sum_list_delta:
  assumes "v < n"
  shows "sum_list (map (\<lambda>u. if u = v then c else (0::real)) [0..<n]) = c"
proof -
  have "sum_list (map (\<lambda>u. if u = v then c else 0) [0..<n])
      = (\<Sum>u\<in>set [0..<n]. if u = v then c else 0)"
    by (rule interv_sum_list_conv_sum_set_nat)
  also have "\<dots> = (if v \<in> set [0..<n] then c else 0)" by (rule sum.delta) simp
  finally show ?thesis using assms by simp
qed

lemma eps_entropy_pos: "0 < eps_entropy"
  unfolding eps_entropy_def by simp

lemma ln2_gt_half: "1 / 2 < ln (2::real)"
proof -
  have "exp (1 / 2 :: real) * exp (1 / 2) = exp 1" by (simp add: exp_add [symmetric])
  moreover have "exp (1::real) \<le> 3" by (rule exp_le)
  ultimately have sq: "(exp (1 / 2 :: real))\<^sup>2 < 2\<^sup>2" by (simp add: power2_eq_square)
  have "exp (1 / 2 :: real) < 2" by (rule power2_less_imp_less [OF sq]) simp
  then have "ln (exp (1 / 2 :: real)) < ln 2" by (subst ln_less_cancel_iff) simp_all
  then show ?thesis by simp
qed

lemma eps_entropy_small: "eps_entropy < 2 / 10 ^ 10"
proof -
  let ?x = "1 / 10 ^ 10 :: real"
  have a: "ln (1 + ?x) \<le> ?x" by (rule ln_add_one_self_le_self) simp
  have "eps_entropy = ln (1 + ?x) / ln 2" by (simp add: eps_entropy_def log_def)
  also have "\<dots> \<le> ?x / ln 2" using a ln2_gt_half by (intro divide_right_mono) auto
  also have "\<dots> < ?x / (1 / 2)" using ln2_gt_half by (intro divide_strict_left_mono) auto
  finally show ?thesis by simp
qed

lemma in_range_replicate: "0 \<le> v \<Longrightarrow> v < N \<Longrightarrow> in_range N (replicate n v)"
  by (simp add: in_range_def list_all_iff)

lemma entropy_terms_constant:
  assumes "1 \<le> n" "0 \<le> v"
  shows "map (\<lambda>p. fmul p (flog2 (fadd p (Fin (1 / 10 ^ 10)))))
           (map (\<lambda>c. fdiv (Fin (real c)) (Fin (real (length (replicate n v)))))
              (map (\<lambda>u. count_list (replicate n v) (int u)) [0..<m]))
         = map Fin (map (\<lambda>u. if u = nat v then eps_entropy else 0) [0..<m])"
proof -
  have n: "real n \<noteq> 0" using assms(1) by simp
  have "\<And>u. fmul (fdiv (Fin (real (count_list (replicate n v) (int u)))) (Fin (real n)))
            (flog2 (fadd (fdiv (Fin (real (count_list (replicate n v) (int u)))) (Fin (real n)))
               (Fin (1 / 10 ^ 10))))
         = Fin (if u = nat v then eps_entropy else 0)"
  proof -
    fix u
    show "fmul (fdiv (Fin (real (count_list (replicate n v) (int u)))) (Fin (real n)))
            (flog2 (fadd (fdiv (Fin (real (count_list (replicate n v) (int u)))) (Fin (real n)))
               (Fin (1 / 10 ^ 10))))
         = Fin (if u = nat v then eps_entropy else 0)"
    proof (cases "u = nat v")
      case True
      then have "v = int u" using assms(2) by simp
      then show ?thesis using n True by (simp add: count_list_replicate eps_entropy_def)
    next
      case False
      then have "v \<noteq> int u" by auto
      then show ?thesis using n False by (simp add: count_list_replicate)
    qed
  qed
  then show ?thesis by simp
qed

lemma test_entropy_constant:
  assumes "1 \<le> n" "0 \<le> v" "v < N"
  shows "fst (test_entropy \<lparr>self_N = N, self_count = c, numbers = replicate n v\<rparr>)
     = Inr (EntropyResult (Fin (- eps_entropy)) (Fin (log 2 (real_of_int N)))
              (if N = 1 then NInf else Fin (- eps_entropy / log 2 (real_of_int N))) False)"
proof -
  have N: "0 \<le> N" "0 < N" using assms by auto
  have b: "np_bincount (replicate n v) N
      = Inr (map (\<lambda>u. count_list (replicate n v) (int u)) [0..<nat N])"
    using np_bincount_in_range [OF N(1) in_range_replicate [OF assms(2,3)]] .
  have s: "sum_list (map (\<lambda>u. if u = nat v then eps_entropy else 0) [0..<nat N]) = eps_entropy"
    by (rule sum_list_delta) (use assms in simp)
  have e: "fneg (fsum (map (\<lambda>p. fmul p (flog2 (fadd p (Fin (1 / 10 ^ 10)))))
           (map (\<lambda>c. fdiv (Fin (real c)) (Fin (real (length (replicate n v)))))
              (map (\<lambda>u. count_list (replicate n v) (int u)) [0..<nat N]))))
      = Fin (- eps_entropy)"
    unfolding entropy_terms_constant [OF assms(1,2)] fsum_Fin s by simp
  have m: "flog2 (float_of_int N) = Fin (log 2 (real_of_int N))"
    using N(2) by (simp add: float_of_int_def)
  have r: "fdiv (Fin (- eps_entropy)) (Fin (log 2 (real_of_int N)))
      = (if N = 1 then NInf else Fin (- eps_entropy / log 2 (real_of_int N)))"
  proof (cases "N = 1")
    case True
    then show ?thesis using eps_entropy_pos by (simp add: inf_of_sign_def)
  next
    case False
    then have "1 < real_of_int N" using N(2) by simp
    then have "0 < log 2 (real_of_int N)" by simp
    then show ?thesis using False by simp
  qed
  have v: "\<not> fgt (if N = 1 then NInf else Fin (- eps_entropy / log 2 (real_of_int N))) (Fin 0.9)"
  proof (cases "N = 1")
    case True
    then show ?thesis by simp
  next
    case False
    then have "1 < real_of_int N" using N(2) by simp
    then have "0 < log 2 (real_of_int N)" by simp
    then have "- eps_entropy / log 2 (real_of_int N) < 0"
      using eps_entropy_pos by (simp add: divide_neg_pos)
    then show ?thesis using False by simp
  qed
  show ?thesis
    unfolding test_entropy_def by (simp only: state.simps b sum.case Let_def e m r fst_conv) (use v in simp)
qed

lemma test_runs_constant:
  assumes "1 \<le> n"
  shows "\<exists>e z p b. fst (test_runs lib \<lparr>self_N = N, self_count = c, numbers = replicate n v\<rparr>)
     = Inr (RunsResult 1 e z p b)"
  using assms by (simp add: test_runs_def getitem_def count_runs_replicate Let_def)

lemma count_runs_single: "count_runs [x] = 1"
  by (simp add: count_runs_def)

lemma count_runs_snoc2:
  "count_runs (xs @ [x, y]) = count_runs (xs @ [x]) + (if x = y then 0 else 1)"
proof -
  let ?n = "length xs"
  let ?f = "\<lambda>zs i runs. if zs ! i \<noteq> zs ! (i - 1) then runs + 1 else (runs::int)"
  have up: "[1..<length (xs @ [x, y])] = [1..<Suc ?n] @ [Suc ?n]" by simp
  have same: "fold (?f (xs @ [x, y])) [1..<Suc ?n] 1 = fold (?f (xs @ [x])) [1..<Suc ?n] 1"
  proof (rule fold_cong)
    fix i assume "i \<in> set [1..<Suc ?n]"
    then have i: "1 \<le> i" "i \<le> ?n" by auto
    have "(xs @ [x, y]) ! i = (xs @ [x]) ! i" using i by (simp add: nth_append)
    moreover have "i - 1 < ?n" using i by simp
    then have "(xs @ [x, y]) ! (i - 1) = (xs @ [x]) ! (i - 1)"
      by (simp only: nth_append if_True)
    ultimately show "?f (xs @ [x, y]) i = ?f (xs @ [x]) i" by simp
  qed simp_all
  have last: "(xs @ [x, y]) ! Suc ?n = y" "(xs @ [x, y]) ! ?n = x"
    by (simp_all add: nth_append)
  have "count_runs (xs @ [x, y]) = ?f (xs @ [x, y]) (Suc ?n) (fold (?f (xs @ [x, y])) [1..<Suc ?n] 1)"
    unfolding count_runs_def up by simp
  also have "\<dots> = fold (?f (xs @ [x])) [1..<Suc ?n] 1 + (if x = y then 0 else 1)"
    unfolding same using last by auto
  finally show ?thesis by (simp add: count_runs_def)
qed

lemma count_runs_snoc: "count_runs (xs @ [x]) = int (length (remdups_adj (xs @ [x])))"
proof (induction xs arbitrary: x rule: rev_induct)
  case Nil
  then show ?case by (simp add: count_runs_single)
next
  case (snoc y xs)
  have "count_runs ((xs @ [y]) @ [x]) = count_runs (xs @ [y]) + (if y = x then 0 else 1)"
    using count_runs_snoc2 [of xs y x] by simp
  moreover have "remdups_adj ((xs @ [y]) @ [x])
      = remdups_adj (xs @ [y]) @ (if y = x then [] else [x])"
    using remdups_adj_append_two [of xs y x] by simp
  ultimately show ?case using snoc.IH [of y] by simp
qed

lemma count_runs_remdups_adj:
  "xs \<noteq> [] \<Longrightarrow> count_runs xs = int (length (remdups_adj xs))"
  using count_runs_snoc [of "butlast xs" "last xs"] by simp

lemma wrap64_id: "- (2 ^ 63) \<le> x \<Longrightarrow> x < 2 ^ 63 \<Longrightarrow> wrap64 x = x"
  unfolding wrap64_def by (simp add: mod_pos_pos_trivial)

lemma wrap64_0: "wrap64 0 = 0"
  by (simp add: wrap64_def)

lemma fdiv_NaN_right: "fdiv a NaN = NaN"
  by (cases a) simp_all

lemma fdiv_NaN_left: "fdiv NaN a = NaN"
  by (cases a) simp_all

lemma test_runs_result:
  assumes "numbers s \<noteq> []"
  shows "fst (test_runs lib s) =
     (let n1 = int (count_list (numbers s) (numbers s ! 0));
          n2 = sub64 (int (length (numbers s))) n1;
          z = fdiv (fsub (float_of_int (count_runs (numbers s))) (runs_expected n1 n2)) (runs_std n1 n2);
          p = fmul (Fin 2) (fsub (Fin 1) (norm_cdf lib (fabs z)))
      in Inr (RunsResult (count_runs (numbers s)) (runs_expected n1 n2) z p (fgt p (Fin 0.05))))"
  using assms by (simp add: test_runs_def getitem_def Let_def)

lemma remdups_adj_two_blocks:
  assumes "0 < a" "0 < b" "x \<noteq> y"
  shows "remdups_adj (replicate a x @ replicate b y) = [x, y]"
proof -
  obtain a' where a: "a = Suc a'" using assms(1) by (cases a) auto
  obtain b' where b: "b = Suc b'" using assms(2) by (cases b) auto
  have ra: "replicate a x = replicate a' x @ [x]" unfolding a by (simp add: replicate_append_same)
  have 1: "remdups_adj (replicate a x @ [y]) = [x, y]"
    using remdups_adj_append_two [of "replicate a' x" x y] assms(3)
      remdups_adj_replicate [of a x] assms(1)
    by (simp add: ra)
  have "remdups_adj (replicate a x @ y # replicate b' y)
      = remdups_adj (replicate a x @ [y]) @ tl (remdups_adj (y # replicate b' y))"
    by (rule remdups_adj_append)
  moreover have "remdups_adj (y # replicate b' y) = [y]"
    using remdups_adj_replicate [of "Suc b'" y] by simp
  ultimately show ?thesis using 1 by (simp add: b)
qed

lemma runs_std_overflow: "runs_std 20000 80000 = NaN"
  by (simp add: runs_std_def mul64_def sub64_def add64_def sq64_def wrap64_def float_of_int_def)

lemma runs_expected_big: "runs_expected 20000 80000 = Fin 32001"
  by (simp add: runs_expected_def mul64_def add64_def wrap64_def float_of_int_def)

lemma ww_variance_big: "0 < ww_variance 20000 80000"
  by (simp add: ww_variance_def)

lemma test_runs_overflow:
  "fst (test_runs lib \<lparr>self_N = 2, self_count = 100000,
                       numbers = replicate 20000 0 @ replicate 80000 1\<rparr>)
     = Inr (RunsResult 2 (Fin 32001) NaN
              (fmul (Fin 2) (fsub (Fin 1) (norm_cdf lib NaN)))
              (fgt (fmul (Fin 2) (fsub (Fin 1) (norm_cdf lib NaN))) (Fin 0.05)))"
proof -
  let ?xs = "replicate 20000 (0::int) @ replicate 80000 1"
  let ?s = "\<lparr>self_N = 2, self_count = 100000, numbers = ?xs\<rparr>"
  have ne: "numbers ?s \<noteq> []" by simp
  have first: "?xs ! 0 = 0" by (simp add: nth_append)
  have n1: "int (count_list ?xs 0) = 20000" by (simp add: count_list_replicate)
  have len: "int (length ?xs) = 100000" by simp
  have n2: "sub64 100000 20000 = 80000" by (simp add: sub64_def wrap64_def)
  have runs: "count_runs ?xs = 2"
    using count_runs_remdups_adj [of ?xs] remdups_adj_two_blocks [of 20000 80000 "0::int" 1]
    by simp
  show ?thesis
    unfolding test_runs_result [OF ne]
    by (simp only: state.simps first n1 len n2 runs Let_def runs_std_overflow
        runs_expected_big fdiv_NaN_right fabs.simps)
qed

lemma wrap64_abs: "\<bar>x\<bar> \<le> 2 ^ 62 \<Longrightarrow> wrap64 x = x"
  by (rule wrap64_id) (simp_all add: abs_le_iff)

lemma runs_formulas_no_overflow:
  assumes n1: "0 \<le> n1" and n2: "0 \<le> n2" and lo: "2 \<le> n1 + n2" and hi: "n1 + n2 \<le> 32768"
  shows "runs_expected n1 n2 = Fin (ww_expected n1 n2)"
    and "runs_std n1 n2 = Fin (sqrt (ww_variance n1 n2))"
proof -
  define P where "P = 2 * n1 * n2"
  define Q where "Q = P - n1 - n2"
  define S where "S = n1 + n2"
  have b1: "n1 \<le> 32768" and b2: "n2 \<le> 32768" using n1 n2 hi by auto
  have "n1 * n2 \<le> 32768 * 32768" using b1 b2 n1 n2 by (intro mult_mono) auto
  then have P_hi: "P \<le> 2147483648" unfolding P_def by simp
  have P_lo: "0 \<le> P" unfolding P_def using n1 n2 by simp
  have Q_abs: "\<bar>Q\<bar> \<le> 2147483648" unfolding Q_def using P_hi P_lo n1 n2 hi by (simp add: abs_le_iff)
  have "\<bar>P * Q\<bar> = \<bar>P\<bar> * \<bar>Q\<bar>" by (rule abs_mult)
  also have "\<dots> \<le> 2147483648 * 2147483648"
    using P_hi P_lo Q_abs by (intro mult_mono) auto
  finally have PQ_abs: "\<bar>P * Q\<bar> \<le> 2 ^ 62" by simp
  have S_lo: "2 \<le> S" and S_hi: "S \<le> 32768" unfolding S_def using lo hi by auto
  have "S * S \<le> 32768 * 32768" using S_lo S_hi by (intro mult_mono) auto
  then have SS_hi: "S * S \<le> 1073741824" by simp
  have SS_lo: "0 \<le> S * S" by simp
  have "S * S * (S - 1) \<le> 1073741824 * 32768"
    using SS_hi SS_lo S_lo S_hi by (intro mult_mono) auto
  moreover have "0 \<le> S * S * (S - 1)" using S_lo by simp
  ultimately have D_abs: "\<bar>S * S * (S - 1)\<bar> \<le> 2 ^ 62" by simp
  have w1: "mul64 2 n1 = 2 * n1" unfolding mul64_def using n1 b1 by (intro wrap64_abs) simp
  have w2: "mul64 (2 * n1) n2 = P" unfolding mul64_def P_def using P_hi P_lo
    by (intro wrap64_abs) (simp add: P_def)
  have w3: "sub64 P n1 = P - n1" unfolding sub64_def using P_hi P_lo n1 b1
    by (intro wrap64_abs) (simp add: abs_le_iff)
  have w4: "sub64 (P - n1) n2 = Q" unfolding sub64_def Q_def using Q_abs
    by (intro wrap64_abs) (simp add: Q_def)
  have w5: "mul64 P Q = P * Q" unfolding mul64_def using PQ_abs by (rule wrap64_abs)
  have w6: "add64 n1 n2 = S" unfolding add64_def S_def using n1 n2 hi
    by (intro wrap64_abs) simp
  have w7: "sq64 S = S * S" unfolding sq64_def using SS_hi SS_lo by (intro wrap64_abs) simp
  have w8: "sub64 S 1 = S - 1" unfolding sub64_def using S_lo S_hi by (intro wrap64_abs) simp
  have w9: "mul64 (S * S) (S - 1) = S * S * (S - 1)" unfolding mul64_def using D_abs
    by (rule wrap64_abs)
  have S0: "real_of_int S \<noteq> 0" using S_lo by simp
  have D0: "real_of_int (S * S * (S - 1)) \<noteq> 0" using S_lo by simp
  have "runs_expected n1 n2 = Fin (1 + real_of_int P / real_of_int S)"
    unfolding runs_expected_def w1 w2 w6 float_of_int_def using S0 by simp
  also have "1 + real_of_int P / real_of_int S = ww_expected n1 n2"
    by (simp add: ww_expected_def P_def S_def)
  finally show "runs_expected n1 n2 = Fin (ww_expected n1 n2)" .
  have PQ_nonneg: "0 \<le> P * Q"
  proof (cases "n1 = 0 \<or> n2 = 0")
    case True
    then have "P = 0" unfolding P_def by auto
    then show ?thesis by simp
  next
    case False
    then have p: "1 \<le> n1" "1 \<le> n2" using n1 n2 by auto
    have "Q = n1 * (n2 - 1) + n2 * (n1 - 1)" unfolding Q_def P_def by (simp add: algebra_simps)
    moreover have "0 \<le> n1 * (n2 - 1)" "0 \<le> n2 * (n1 - 1)" using p by auto
    ultimately have "0 \<le> Q" by simp
    then show ?thesis using P_lo by simp
  qed
  have var: "real_of_int (P * Q) / real_of_int (S * S * (S - 1)) = ww_variance n1 n2"
    by (simp add: ww_variance_def P_def Q_def S_def power2_eq_square)
  have "0 \<le> real_of_int (S * S * (S - 1))" using S_lo by simp
  moreover have "0 \<le> real_of_int (P * Q)" using PQ_nonneg by (simp only: of_int_0_le_iff)
  ultimately have nonneg: "0 \<le> real_of_int (P * Q) / real_of_int (S * S * (S - 1))"
    by (rule divide_nonneg_nonneg [rotated])
  have "runs_std n1 n2 = fsqrt (Fin (real_of_int (P * Q) / real_of_int (S * S * (S - 1))))"
    unfolding runs_std_def w1 w2 w3 w4 w5 w6 w7 w8 w9 float_of_int_def using D0
    by (simp only: fdiv.simps if_False)
  also have "\<dots> = Fin (sqrt (real_of_int (P * Q) / real_of_int (S * S * (S - 1))))"
    using nonneg by (simp only: fsqrt.simps) simp
  finally show "runs_std n1 n2 = Fin (sqrt (ww_variance n1 n2))" unfolding var .
qed

lemma sum_list_filter_lag:
  assumes "k < n"
  shows "sum_list (map f (filter (\<lambda>i. i + k < n) [0..<n])) = sum_list (map f [0..<n - k])"
proof -
  have split: "[0..<n] = [0..<n - k] @ [n - k..<n]"
    using upt_add_eq_append [of 0 "n - k" k] assms by simp
  have a: "filter (\<lambda>i. i + k < n) [0..<n - k] = [0..<n - k]"
    by (rule filter_True) auto
  have b: "filter (\<lambda>i. i + k < n) [n - k..<n] = []"
    by (rule filter_False) auto
  show ?thesis unfolding split filter_append a b by simp
qed

lemma correlate_lags:
  assumes "xs \<noteq> []"
  shows "\<exists>full. np_correlate_full xs xs = Inr full \<and>
           drop (length xs - 1) full = map (\<lambda>k. wrap64 (lag_sum xs k)) [0..<length xs]"
proof -
  define n where "n = length xs"
  define m where "m = n - 1"
  define g where "g = (\<lambda>j. wrap64 (sum_list (map (\<lambda>i. xs ! (i + j - m) * xs ! i)
                      (filter (\<lambda>i. m \<le> i + j \<and> i + j - m < n) [0..<n]))))"
  have n: "0 < n" using assms by (simp add: n_def)
  have m': "n - Suc 0 = m" by (simp add: m_def)
  have nm: "n + n - Suc 0 = n + m" using n by (simp add: m_def)
  have full: "np_correlate_full xs xs = Inr (map g [0..<n + m])"
    using assms by (simp add: np_correlate_full_def g_def n_def [symmetric] m' nm)
  have "drop m (map g [0..<n + m]) = map g [m..<n + m]"
    by (simp add: drop_map drop_upt)
  also have "[m..<n + m] = map (\<lambda>k. k + m) [0..<n]"
    by (rule map_add_upt [symmetric])
  also have "map g (map (\<lambda>k. k + m) [0..<n]) = map (\<lambda>k. wrap64 (lag_sum xs k)) [0..<n]"
  proof -
    have "\<And>k. k < n \<Longrightarrow> g (k + m) = wrap64 (lag_sum xs k)"
    proof -
      fix k assume k: "k < n"
      have f: "filter (\<lambda>i. m \<le> i + (k + m) \<and> i + (k + m) - m < n) [0..<n]
          = filter (\<lambda>i. i + k < n) [0..<n]"
        by (rule filter_cong) auto
      have "sum_list (map (\<lambda>i. xs ! (i + (k + m) - m) * xs ! i)
                (filter (\<lambda>i. i + k < n) [0..<n]))
          = sum_list (map (\<lambda>i. xs ! (i + k) * xs ! i) (filter (\<lambda>i. i + k < n) [0..<n]))"
        by simp
      also have "\<dots> = sum_list (map (\<lambda>i. xs ! (i + k) * xs ! i) [0..<n - k])"
        by (rule sum_list_filter_lag [OF k])
      finally show "g (k + m) = wrap64 (lag_sum xs k)"
        unfolding g_def f lag_sum_def n_def by simp
    qed
    then show ?thesis by simp
  qed
  finally show ?thesis using full unfolding n_def m_def by simp
qed

lemma autocorr_normalized_eq:
  assumes "xs \<noteq> []"
  shows "autocorr_normalized xs = Inr (map (acf_coeff xs) [0..<length xs])"
proof -
  obtain full where full: "np_correlate_full xs xs = Inr full"
    and d: "drop (length xs - 1) full = map (\<lambda>k. wrap64 (lag_sum xs k)) [0..<length xs]"
    using correlate_lags [OF assms] by blast
  have "0 < length xs" using assms by simp
  then have z: "map (\<lambda>k. wrap64 (lag_sum xs k)) [0..<length xs] ! 0 = wrap64 (lag_sum xs 0)"
    by (simp add: nth_map)
  show ?thesis
    unfolding autocorr_normalized_def full sum.case d z
    by (simp add: acf_coeff_def comp_def)
qed

lemma take_drop_upt: "take 10 (drop 1 [0..<n]) = [1..<min 11 n]"
proof (cases "11 \<le> n")
  case True
  then show ?thesis using take_upt [of 1 10 n] by (simp add: drop_upt min_def)
next
  case False
  then show ?thesis by (simp add: drop_upt min_def)
qed

lemma acf_window:
  "take 10 (drop 1 (map c [0..<n])) = map c [1..<min 11 n]"
  using take_drop_upt [of n] by (simp add: take_map drop_map)

lemma zip_map_same: "zip ks (map c ks) = map (\<lambda>k. (k, c k)) ks"
  by (induction ks) auto

lemma significant_lags:
  "map fst (filter (\<lambda>(i, v). P v) (zip ks (map c ks))) = filter (\<lambda>k. P (c k)) ks"
  unfolding zip_map_same by (induction ks) auto

lemma list_ex_filter: "(\<not> list_ex P (map c ks)) = (filter (\<lambda>k. P (c k)) ks = [])"
  by (induction ks) auto

text \<open>
  The result of the independence test on any sequence of at least two elements, in terms
  of the entries of \<^verbatim>\<open>autocorr\<close> and of the band as the code computes them.
\<close>

lemma test_independence_result:
  assumes "2 \<le> length (numbers s)"
  shows "fst (test_independence s) =
     Inr (IndependenceResult
            (np_max (map (\<lambda>k. fabs (acf_coeff (numbers s) k)) [1..<min 11 (length (numbers s))]))
            (filter (\<lambda>k. fgt (fabs (acf_coeff (numbers s) k))
                             (fdiv64 (round64 1.96)
                                (fsqrt64 (float64_of_int (int (length (numbers s)))))))
               [1..<min 11 (length (numbers s))])
            (filter (\<lambda>k. fgt (fabs (acf_coeff (numbers s) k))
                             (fdiv64 (round64 1.96)
                                (fsqrt64 (float64_of_int (int (length (numbers s)))))))
               [1..<min 11 (length (numbers s))] = []))"
proof -
  define xs where "xs = numbers s"
  define ks where "ks = [1..<min 11 (length xs)]"
  define ci where "ci = fdiv64 (round64 1.96) (fsqrt64 (float64_of_int (int (length xs))))"
  have ne: "xs \<noteq> []" using assms by (auto simp: xs_def)
  have a: "autocorr_normalized xs = Inr (map (acf_coeff xs) [0..<length xs])"
    by (rule autocorr_normalized_eq [OF ne])
  have w: "take 10 (drop 1 (map (acf_coeff xs) [0..<length xs])) = map (acf_coeff xs) ks"
    unfolding ks_def by (rule acf_window)
  have ks_ne: "ks \<noteq> []" using assms by (auto simp: ks_def xs_def min_def)
  have "Suc (length (map (acf_coeff xs) ks)) = min 11 (length xs)"
    using assms by (auto simp: ks_def xs_def min_def)
  then have len: "[1..<Suc (length (map (acf_coeff xs) ks))] = ks"
    by (simp only: ks_def)
  have "fst (test_independence s) =
      Inr (IndependenceResult (np_max (map fabs (map (acf_coeff xs) ks)))
        (map fst (filter (\<lambda>(i, v). fgt (fabs v) ci) (zip ks (map (acf_coeff xs) ks))))
        (\<not> list_ex (\<lambda>v. fgt (fabs v) ci) (map (acf_coeff xs) ks)))"
    unfolding test_independence_def xs_def [symmetric] a sum.case w Let_def len
      ci_def [symmetric]
    using ks_ne by simp
  then show ?thesis
    unfolding significant_lags list_ex_filter
    by (simp add: xs_def ks_def ci_def comp_def)
qed

lemma test_independence_ok:
  assumes "2 \<le> length (numbers s)"
  shows "\<exists>m lags b. fst (test_independence s) = Inr (IndependenceResult m lags b)"
  using test_independence_result [OF assms] by blast






















lemma sum_list_delta_nat:
  assumes "v < n"
  shows "sum_list (map (\<lambda>u. if u = v then c else (0::nat)) [0..<n]) = c"
proof -
  have "sum_list (map (\<lambda>u. if u = v then c else 0) [0..<n])
      = (\<Sum>u\<in>set [0..<n]. if u = v then c else 0)"
    by (rule interv_sum_list_conv_sum_set_nat)
  also have "\<dots> = (if v \<in> set [0..<n] then c else 0)" by (rule sum.delta) simp
  finally show ?thesis using assms by simp
qed

lemma sum_bincount:
  assumes "in_range N xs"
  shows "sum_list (map (\<lambda>v. count_list xs (int v)) [0..<nat N]) = length xs"
  using assms
proof (induction xs)
  case Nil
  then show ?case by simp
next
  case (Cons x xs)
  then have x: "0 \<le> x" "x < N" and r: "in_range N xs" by (auto simp: in_range_def)
  have eq: "map (\<lambda>v. count_list (x # xs) (int v)) [0..<nat N]
      = map (\<lambda>v. (if v = nat x then 1 else 0) + count_list xs (int v)) [0..<nat N]"
    using x by (intro map_cong) auto
  have "sum_list (map (\<lambda>v. count_list (x # xs) (int v)) [0..<nat N])
      = sum_list (map (\<lambda>v. if v = nat x then 1 else 0) [0..<nat N])
        + sum_list (map (\<lambda>v. count_list xs (int v)) [0..<nat N])"
    unfolding eq by (rule sum_list_addf)
  moreover have "sum_list (map (\<lambda>v. if v = nat x then 1 else (0::nat)) [0..<nat N]) = 1"
    by (rule sum_list_delta_nat) (use x in simp)
  ultimately show ?case using Cons.IH [OF r] by simp
qed

lemma uniformity_expected_pos:
  "1 \<le> N \<Longrightarrow> uniformity_expected N cnt
     = replicate (nat N) (Fin (real_of_int cnt / real_of_int N))"
  by (simp add: uniformity_expected_def float_of_int_def)

lemma map2_replicate_right:
  "length xs = n \<Longrightarrow> map2 f xs (replicate n c) = map (\<lambda>x. f x c) xs"
  by (induction xs arbitrary: n) auto

lemma fsum_replicate: "fsum (replicate n (Fin c)) = Fin (real n * c)"
proof -
  have "fsum (map Fin (replicate n c)) = Fin (sum_list (replicate n c))" by (rule fsum_Fin)
  then show ?thesis by (simp add: sum_list_replicate)
qed

lemma fsum_of_counts: "fsum (of_counts cs) = Fin (real (sum_list cs))"
proof -
  have "of_counts cs = map Fin (map real cs)" by (simp add: of_counts_def)
  moreover have "sum_list (map real cs) = real (sum_list cs)" by (induction cs) auto
  ultimately show ?thesis by (simp only: fsum_Fin)
qed

lemma chisquare_terms:
  assumes "e \<noteq> 0"
  shows "map2 (\<lambda>ob ex. fdiv (fmul (fsub ob ex) (fsub ob ex)) ex)
            (of_counts cs) (replicate (length cs) (Fin e))
         = map Fin (map (\<lambda>c. (real c - e)\<^sup>2 / e) cs)"
proof -
  have "length (of_counts cs) = length cs" by (simp add: of_counts_def)
  then have "map2 (\<lambda>ob ex. fdiv (fmul (fsub ob ex) (fsub ob ex)) ex)
            (of_counts cs) (replicate (length cs) (Fin e))
      = map (\<lambda>ob. fdiv (fmul (fsub ob (Fin e)) (fsub ob (Fin e))) (Fin e)) (of_counts cs)"
    by (rule map2_replicate_right)
  also have "\<dots> = map Fin (map (\<lambda>c. (real c - e)\<^sup>2 / e) cs)"
    using assms by (simp add: of_counts_def fsub_def power2_eq_square)
  finally show ?thesis .
qed

lemma stats_chisquare_agree:
  assumes len: "length cs = n" and total: "real (sum_list cs) = real n * e" and e: "0 < e"
    and n: "0 < n"
  shows "stats_chisquare lib (of_counts cs) (replicate n (Fin e))
     = Inr (Fin (sum_list (map (\<lambda>c. (real c - e)\<^sup>2 / e) cs)),
            chi2_sf lib (int n - 1) (Fin (sum_list (map (\<lambda>c. (real c - e)\<^sup>2 / e) cs))))"
proof -
  have b: "np_broadcast (of_counts cs) (replicate n (Fin e))
      = Inr (of_counts cs, replicate n (Fin e))"
    using len by (simp add: np_broadcast_def of_counts_def)
  have pos: "0 < real n * e" using e n by simp
  have check: "\<not> fgt (fdiv (fabs (fsub (fsum (of_counts cs)) (fsum (replicate n (Fin e)))))
                        (fmin (fsum (of_counts cs)) (fsum (replicate n (Fin e)))))
                 (Fin (1 / 10 ^ 8))"
    unfolding fsum_of_counts fsum_replicate total using pos e n by (simp add: fsub_def)
  have t: "map2 (\<lambda>ob ex. fdiv (fmul (fsub ob ex) (fsub ob ex)) ex)
            (of_counts cs) (replicate n (Fin e))
         = map Fin (map (\<lambda>c. (real c - e)\<^sup>2 / e) cs)"
    using chisquare_terms [of e cs] e len by simp
  have l: "int (length (of_counts cs)) = int n" using len by (simp add: of_counts_def)
  show ?thesis
    unfolding stats_chisquare_def b sum.case prod.case t fsum_Fin l
    using check by simp
qed

lemma test_uniformity_result:
  assumes N: "1 \<le> self_N s" and r: "in_range (self_N s) (numbers s)"
    and ne: "numbers s \<noteq> []" and c: "self_count s = int (length (numbers s))"
  shows "fst (test_uniformity lib s) =
     Inr (UniformityResult
            (Fin (chi_square_statistic (self_N s) (int (length (numbers s))) (numbers s)))
            (chi2_sf lib (self_N s - 1)
               (Fin (chi_square_statistic (self_N s) (int (length (numbers s))) (numbers s))))
            (fgt (chi2_sf lib (self_N s - 1)
                    (Fin (chi_square_statistic (self_N s) (int (length (numbers s))) (numbers s))))
               (Fin 0.05)))"
proof -
  define xs where "xs = numbers s"
  define n where "n = nat (self_N s)"
  define e where "e = real (length xs) / real n"
  define cs where "cs = map (\<lambda>v. count_list xs (int v)) [0..<n]"
  have n: "0 < n" "int n = self_N s" using N by (auto simp: n_def)
  have e: "0 < e" using ne n by (simp add: e_def xs_def)
  have e': "real_of_int (self_count s) / real_of_int (self_N s) = e"
    using c n(2) by (simp add: e_def xs_def flip: n(2))
  have b: "np_bincount xs (self_N s) = Inr cs"
    unfolding cs_def n_def xs_def using np_bincount_in_range [of "self_N s" "numbers s"] N r by simp
  have ex: "uniformity_expected (self_N s) (self_count s) = replicate n (Fin e)"
    unfolding uniformity_expected_pos [OF N] e' n_def ..
  have len: "length cs = n" by (simp add: cs_def)
  have "sum_list cs = length xs"
    unfolding cs_def n_def xs_def by (rule sum_bincount [OF r])
  then have total: "real (sum_list cs) = real n * e" using n by (simp add: e_def)
  have stat: "sum_list (map (\<lambda>c. (real c - e)\<^sup>2 / e) cs)
      = chi_square_statistic (self_N s) (int (length xs)) xs"
    unfolding chi_square_statistic_def cs_def n_def [symmetric]
    using n(2) by (simp add: comp_def e_def flip: n(2))
  have "fst (test_uniformity lib s) =
     Inr (UniformityResult (Fin (sum_list (map (\<lambda>c. (real c - e)\<^sup>2 / e) cs)))
            (chi2_sf lib (int n - 1) (Fin (sum_list (map (\<lambda>c. (real c - e)\<^sup>2 / e) cs))))
            (fgt (chi2_sf lib (int n - 1) (Fin (sum_list (map (\<lambda>c. (real c - e)\<^sup>2 / e) cs))))
               (Fin 0.05)))"
    unfolding test_uniformity_def xs_def [symmetric] b sum.case ex
      stats_chisquare_agree [OF len total e n(1)]
    by simp
  then show ?thesis unfolding stat n(2) xs_def .
qed

lemma gap_loop_nonempty:
  "gaps \<noteq> [] \<or> (\<exists>x\<in>set xs. last_pos x \<noteq> None) \<or> \<not> distinct xs \<Longrightarrow>
     gap_loop xs i gaps last_pos \<noteq> []"
proof (induction xs arbitrary: i gaps last_pos)
  case Nil
  then show ?case by simp
next
  case (Cons num rest)
  let ?gaps = "case last_pos num of Some p \<Rightarrow> gaps @ [int i - int p] | None \<Rightarrow> gaps"
  let ?lp = "last_pos(num \<mapsto> i)"
  have "?gaps \<noteq> [] \<or> (\<exists>x\<in>set rest. ?lp x \<noteq> None) \<or> \<not> distinct rest"
  proof (cases "last_pos num")
    case None
    then show ?thesis using Cons.prems by auto
  next
    case (Some p)
    then show ?thesis by simp
  qed
  then have "gap_loop rest (Suc i) ?gaps ?lp \<noteq> []" by (rule Cons.IH)
  then show ?case by simp
qed

lemma gap_loop_distinct_empty:
  "distinct xs \<Longrightarrow> (\<forall>x\<in>set xs. last_pos x = None) \<Longrightarrow> gap_loop xs i [] last_pos = []"
proof (induction xs arbitrary: i last_pos)
  case Nil
  then show ?case by simp
next
  case (Cons num rest)
  have "gap_loop rest (Suc i) [] (last_pos(num \<mapsto> i)) = []"
    using Cons.prems by (intro Cons.IH) auto
  then show ?case using Cons.prems by simp
qed

lemma test_gap_distribution_ok:
  assumes "\<not> distinct (numbers s)"
  shows "\<exists>m sd ks p b. fst (test_gap_distribution lib s) = Inr (GapResult m sd ks p b)"
proof -
  have "gap_loop (numbers s) 0 [] Map.empty \<noteq> []"
    using assms by (intro gap_loop_nonempty) simp
  then show ?thesis
    by (simp add: test_gap_distribution_def stats_kstest_expon_def Let_def)
qed

lemma np_mean_Nil: "np_mean [] = NaN"
  by (simp add: np_mean_def fsum_def inf_of_sign_def)

lemma test_gap_distribution_distinct:
  assumes "distinct (numbers s)"
  shows "fst (test_gap_distribution lib s) =
     (case ks_empty lib of
        Inl e \<Rightarrow> Inl e
      | Inr (ks, p) \<Rightarrow> Inr (GapResult NaN NaN ks p (fgt p (Fin 0.05))))"
proof -
  have g: "gap_loop (numbers s) 0 [] Map.empty = []"
    using assms by (intro gap_loop_distinct_empty) simp_all
  show ?thesis
    unfolding test_gap_distribution_def Let_def g
    by (simp add: np_mean_Nil np_std_def np_var_def stats_kstest_expon_def
        split: sum.splits prod.splits)
qed

lemma test_entropy_ok:
  assumes "0 \<le> self_N s" "in_range (self_N s) (numbers s)"
  shows "\<exists>e m r b. fst (test_entropy s) = Inr (EntropyResult e m r b)"
  using np_bincount_in_range [OF assms] by (simp add: test_entropy_def Let_def)

lemma test_runs_ok:
  assumes "numbers s \<noteq> []"
  shows "\<exists>r e z p b. fst (test_runs lib s) = Inr (RunsResult r e z p b)"
  using test_runs_result [OF assms, of lib] by (simp add: Let_def)

lemma test_independence_short:
  assumes "length (numbers s) \<le> 1"
  shows "fst (test_independence s) = Inl ValueError"
proof (cases "numbers s")
  case Nil
  then show ?thesis
    by (simp add: test_independence_def autocorr_normalized_def np_correlate_full_def)
next
  case (Cons x xs)
  then have xs: "numbers s = [x]" using assms by simp
  have "autocorr_normalized [x] = Inr (map (acf_coeff [x]) [0..<length [x]])"
    by (rule autocorr_normalized_eq) simp
  then show ?thesis by (simp add: test_independence_def xs Let_def)
qed

lemma step_ok: "fst p = Inr r \<Longrightarrow> snd p = s \<Longrightarrow> p = (Inr r, s)"
  by (simp add: prod_eq_iff)

lemma step_fail: "fst p = Inl e \<Longrightarrow> snd p = s \<Longrightarrow> p = (Inl e, s)"
  by (simp add: prod_eq_iff)

lemma run_all_tests_ok:
  assumes "fst (test_uniformity lib s) = Inr r1" "fst (test_independence s) = Inr r2"
    "fst (test_gap_distribution lib s) = Inr r3" "fst (test_runs lib s) = Inr r4"
    "fst (test_entropy s) = Inr r5"
  shows "fst (run_all_tests lib s) = Inr [r1, r2, r3, r4, r5]"
proof -
  note steps = step_ok [OF assms(1) snd_test_uniformity] step_ok [OF assms(2) snd_test_independence]
    step_ok [OF assms(3) snd_test_gap_distribution] step_ok [OF assms(4) snd_test_runs]
    step_ok [OF assms(5) snd_test_entropy]
  show ?thesis unfolding run_all_tests_def by (simp add: steps)
qed

lemma run_all_tests_length_one:
  assumes "length (numbers s) = 1"
  shows "fst (run_all_tests lib s) = Inl ValueError"
proof -
  have i: "test_independence s = (Inl ValueError, s)"
    using assms by (intro step_fail test_independence_short snd_test_independence) simp
  show ?thesis
  proof (cases "fst (test_uniformity lib s)")
    case (Inl e)
    have "e = ValueError"
      using Inl
      by (auto simp: test_uniformity_def np_bincount_def stats_chisquare_def np_broadcast_def
          split: sum.splits if_splits prod.splits)
    then show ?thesis
      unfolding run_all_tests_def using step_fail [OF Inl snd_test_uniformity] by simp
  next
    case (Inr r)
    show ?thesis
      unfolding run_all_tests_def using step_ok [OF Inr snd_test_uniformity] i by simp
  qed
qed

subsection \<open>Claims on the frame of the battery\<close>

text \<open>
  C10. Every test of the battery leaves the input sequence unchanged: after
  \<^verbatim>\<open>run_all_tests\<close>, and after each of the five tests, the array \<^verbatim>\<open>numbers\<close>
  has the elements it had before the call, in the same order.
\<close>

theorem tests_leave_numbers_unchanged:
  "numbers (snd (run_all_tests lib s)) = numbers s \<and>
   numbers (snd (test_uniformity lib s)) = numbers s \<and>
   numbers (snd (test_independence s)) = numbers s \<and>
   numbers (snd (test_gap_distribution lib s)) = numbers s \<and>
   numbers (snd (test_runs lib s)) = numbers s \<and>
   numbers (snd (test_entropy s)) = numbers s"
  by (simp add: snd_run_all_tests snd_test_uniformity snd_test_independence
      snd_test_gap_distribution snd_test_runs snd_test_entropy)

theorem tests_leave_numbers_unchanged_witness:
  "numbers (snd (run_all_tests lib0 \<lparr>self_N = 3, self_count = 4, numbers = [0, 2, 2, 1]\<rparr>))
     = [0, 2, 2, 1]"
  using tests_leave_numbers_unchanged
    [of lib0 "\<lparr>self_N = 3, self_count = 4, numbers = [0, 2, 2, 1]\<rparr>"]
  by simp

text \<open>
  C9. Running the battery twice on the same sequence gives the same results: the first
  run leaves the tester and the sequence as they were, so the second run starts from the
  same state and returns what the first one returned.
\<close>

theorem run_all_tests_twice:
  "snd (run_all_tests lib s) = s \<and>
   fst (run_all_tests lib (snd (run_all_tests lib s))) = fst (run_all_tests lib s)"
  by (simp add: snd_run_all_tests)

theorem run_all_tests_twice_witness:
  "fst (run_all_tests lib0
          (snd (run_all_tests lib0 \<lparr>self_N = 3, self_count = 4, numbers = [0, 2, 2, 1]\<rparr>)))
     = fst (run_all_tests lib0 \<lparr>self_N = 3, self_count = 4, numbers = [0, 2, 2, 1]\<rparr>)"
  using run_all_tests_twice [of lib0 "\<lparr>self_N = 3, self_count = 4, numbers = [0, 2, 2, 1]\<rparr>"]
  by simp

subsection \<open>Claims on the gap test\<close>

lemma np_mean_replicate: "0 < m \<Longrightarrow> np_mean (replicate m (Fin c)) = Fin c"
  by (simp add: np_mean_def fsum_replicate)

lemma np_var_replicate: "0 < m \<Longrightarrow> np_var (replicate m (Fin c)) = Fin 0"
proof -
  assume m: "0 < m"
  have "np_var (replicate m (Fin c)) = np_mean (replicate m (Fin 0))"
    by (simp add: np_var_def np_mean_replicate [OF m] fsub_def)
  then show ?thesis by (simp add: np_mean_replicate [OF m])
qed

lemma test_gap_distribution_periodic:
  assumes "1 \<le> N" and "2 \<le> k"
  shows "\<exists>ks p b. fst (test_gap_distribution lib
                      \<lparr>self_N = D, self_count = c, numbers = periodic N k\<rparr>)
           = Inr (GapResult (Fin (real N)) (Fin 0) ks p b)"
proof -
  define m where "m = (k - 1) * N"
  define s where "s = \<lparr>self_N = D, self_count = c, numbers = periodic N k\<rparr>"
  have m: "0 < m" using assms by (simp add: m_def)
  have g: "gap_loop (numbers s) 0 [] Map.empty = replicate m (int N)"
    using gap_loop_periodic [of N k] assms by (simp add: m_def s_def)
  have f: "map float_of_int (replicate m (int N)) = replicate m (Fin (real N))"
    by (simp add: float_of_int_def)
  have mean: "np_mean (map float_of_int (replicate m (int N))) = Fin (real N)"
    unfolding f by (rule np_mean_replicate [OF m])
  have std: "np_std (map float_of_int (replicate m (int N))) = Fin 0"
    unfolding f np_std_def np_var_replicate [OF m] by simp
  have ks: "\<And>a b. stats_kstest_expon lib (replicate m (int N)) a b
      = Inr (ks_statistic lib (replicate m (int N)) a b, ks_pvalue lib (replicate m (int N)) a b)"
    using m by (simp add: stats_kstest_expon_def)
  show ?thesis
    unfolding s_def [symmetric] test_gap_distribution_def Let_def g mean std ks by simp
qed

text \<open>
  C8. For every \<open>N \<ge> 1\<close> and the sequence that repeats the block \<open>[0, 1, ..., N - 1]\<close>
  \<open>k \<ge> 2\<close> times, the gap test records one gap for each of the \<open>(k - 1) * N\<close>
  occurrences of a value after its first one, and every recorded gap is exactly \<open>N\<close>;
  the test reports the mean gap \<open>N\<close> and the standard deviation 0.
\<close>

theorem gap_test_periodic:
  assumes "1 \<le> N" and "2 \<le> k"
  shows "gap_loop (periodic N k) 0 [] Map.empty = replicate ((k - 1) * N) (int N) \<and>
         (\<exists>ks p b. fst (test_gap_distribution lib
                          \<lparr>self_N = D, self_count = c, numbers = periodic N k\<rparr>)
                      = Inr (GapResult (Fin (real N)) (Fin 0) ks p b))"
  using assms gap_loop_periodic [of N k] test_gap_distribution_periodic [OF assms, of lib D c]
  by simp

theorem gap_test_periodic_witness:
  "gap_loop (periodic 3 2) 0 [] Map.empty = [3, 3, 3] \<and>
   (\<exists>ks p b. fst (test_gap_distribution lib0
                    \<lparr>self_N = 3, self_count = 6, numbers = periodic 3 2\<rparr>)
                = Inr (GapResult (Fin 3) (Fin 0) ks p b))"
  using gap_test_periodic [of 3 2 lib0 3 6] by (simp add: numeral_eq_Suc)

subsection \<open>Claims on a constant sequence\<close>

text \<open>
  The entropy test does not report entropy 0 for a constant sequence: for two copies of
  the value 0 with \<open>N = 2\<close> the entropy is \<open>- log\<^sub>2 (1 + 1e-10)\<close>, a negative
  number, and so is the entropy ratio.
\<close>

theorem entropy_constant_counterexample:
  "fst (test_entropy \<lparr>self_N = 2, self_count = 2, numbers = [0, 0]\<rparr>)
     = Inr (EntropyResult (Fin (- eps_entropy)) (Fin 1) (Fin (- eps_entropy)) False) \<and>
   Fin (- eps_entropy) \<noteq> Fin 0"
proof -
  have "replicate 2 (0::int) = [0, 0]" by (simp add: numeral_eq_Suc)
  then show ?thesis
    using test_entropy_constant [of 2 0 2 2] eps_entropy_pos by simp
qed

text \<open>
  C7, as amended. For a constant sequence, \<open>n \<ge> 1\<close> copies of a value \<open>v\<close> of
  \<open>[0, N)\<close>, the runs test reports exactly 1 run. The entropy test reports the entropy
  \<open>- log\<^sub>2 (1 + 1e-10)\<close>, which is negative and within \<open>2e-10\<close> of 0, not 0 itself: the
  smoothing constant is added to the probability 1 as well. The entropy ratio is that
  entropy divided by \<open>log\<^sub>2 N\<close> for \<open>N \<ge> 2\<close>, and minus infinity for \<open>N = 1\<close>.
\<close>

theorem constant_sequence_runs_entropy:
  assumes "1 \<le> n" and "0 \<le> v" and "v < N"
  shows "(\<exists>e z p b. fst (test_runs lib \<lparr>self_N = N, self_count = c, numbers = replicate n v\<rparr>)
            = Inr (RunsResult 1 e z p b)) \<and>
         fst (test_entropy \<lparr>self_N = N, self_count = c, numbers = replicate n v\<rparr>)
            = Inr (EntropyResult (Fin (- eps_entropy)) (Fin (log 2 (real_of_int N)))
                (if N = 1 then NInf else Fin (- eps_entropy / log 2 (real_of_int N))) False) \<and>
         - (2 / 10 ^ 10) < - eps_entropy \<and> - eps_entropy < 0"
  using test_runs_constant [OF assms(1)] test_entropy_constant [OF assms]
    eps_entropy_pos eps_entropy_small
  by simp

theorem constant_sequence_runs_entropy_witness:
  "(\<exists>e z p b. fst (test_runs lib0 \<lparr>self_N = 5, self_count = 3, numbers = replicate 3 4\<rparr>)
            = Inr (RunsResult 1 e z p b)) \<and>
   fst (test_entropy \<lparr>self_N = 5, self_count = 3, numbers = replicate 3 4\<rparr>)
      = Inr (EntropyResult (Fin (- eps_entropy)) (Fin (log 2 5))
          (Fin (- eps_entropy / log 2 5)) False)"
  using constant_sequence_runs_entropy [of 3 4 5 lib0 3] by simp

subsection \<open>Claims on the runs test\<close>

lemma count_list_le_length: "count_list xs x \<le> length xs"
  by (induction xs) auto

text \<open>
  On a sequence of 2 to 32768 elements no int64 operation of the runs test overflows,
  and the test computes what the specification says: the number of maximal blocks of
  equal consecutive values, the expected number of runs and the standard deviation of the
  Wald-Wolfowitz formula for \<open>n1\<close> occurrences of the first value and \<open>n2\<close> other
  elements, the Z statistic, the two-sided normal p-value and the verdict \<open>p > 0.05\<close>.
\<close>

lemma test_runs_short:
  assumes lo: "2 \<le> length (numbers s)" and hi: "length (numbers s) \<le> 32768"
  shows "fst (test_runs lib s) =
     (let xs = numbers s;
          n1 = int (count_list xs (xs ! 0));
          n2 = int (length xs) - n1;
          z = fdiv (Fin (real (length (remdups_adj xs)) - ww_expected n1 n2))
                (Fin (sqrt (ww_variance n1 n2)));
          p = fmul (Fin 2) (fsub (Fin 1) (norm_cdf lib (fabs z)))
      in Inr (RunsResult (int (length (remdups_adj xs))) (Fin (ww_expected n1 n2)) z p
                (fgt p (Fin 0.05))))"
proof -
  define xs where "xs = numbers s"
  define n1 where "n1 = int (count_list xs (xs ! 0))"
  define n2 where "n2 = int (length xs) - n1"
  have ne: "xs \<noteq> []" using lo by (auto simp: xs_def)
  have n1: "0 \<le> n1" "n1 \<le> int (length xs)"
    using count_list_le_length [of xs "xs ! 0"] by (simp_all add: n1_def)
  have n2: "0 \<le> n2" "n2 \<le> 32768" using n1 hi by (simp_all add: n2_def xs_def)
  have s: "sub64 (int (length xs)) n1 = n2"
    unfolding sub64_def n2_def [symmetric] using n2 by (intro wrap64_id) auto
  have sum: "2 \<le> n1 + n2" "n1 + n2 \<le> 32768" using lo hi by (simp_all add: n2_def xs_def)
  note f = runs_formulas_no_overflow [OF n1(1) n2(1) sum]
  have r: "count_runs xs = int (length (remdups_adj xs))"
    by (rule count_runs_remdups_adj [OF ne])
  have "fst (test_runs lib s) =
     (let z = fdiv (fsub (float_of_int (int (length (remdups_adj xs)))) (Fin (ww_expected n1 n2)))
                (Fin (sqrt (ww_variance n1 n2)));
          p = fmul (Fin 2) (fsub (Fin 1) (norm_cdf lib (fabs z)))
      in Inr (RunsResult (int (length (remdups_adj xs))) (Fin (ww_expected n1 n2)) z p
                (fgt p (Fin 0.05))))"
    using test_runs_result [of s lib] ne
    unfolding xs_def [symmetric] Let_def n1_def [symmetric] s f r by simp
  then show ?thesis
    unfolding Let_def xs_def [symmetric] n1_def [symmetric] n2_def [symmetric]
    by (simp add: float_of_int_def fsub_def)
qed

text \<open>
  C6. The claim: for every non-empty sequence the runs test reports the number of maximal
  blocks of equal consecutive values, the expected run count
  \<open>1 + 2 n1 n2 / (n1 + n2)\<close> and the Wald-Wolfowitz variance. The code computes
  \<^verbatim>\<open>2 * n1 * n2 * (2 * n1 * n2 - n1 - n2)\<close> on int64 scalars, and the product
  overflows on long sequences. For 20000 zeros followed by 80000 ones the exact product is
  about \<open>1.02e19\<close>, beyond \<open>2\<^sup>6\<^sup>3\<close>; it wraps to a negative number, the
  square root is NaN, and the test reports a NaN Z statistic, where the formula of the
  claim gives a positive variance and a finite Z.
\<close>

theorem runs_test_overflow:
  "fst (test_runs lib \<lparr>self_N = 2, self_count = 100000,
                       numbers = replicate 20000 0 @ replicate 80000 1\<rparr>)
     = Inr (RunsResult 2 (Fin 32001) NaN
              (fmul (Fin 2) (fsub (Fin 1) (norm_cdf lib NaN)))
              (fgt (fmul (Fin 2) (fsub (Fin 1) (norm_cdf lib NaN))) (Fin 0.05))) \<and>
   runs_std 20000 80000 = NaN \<and> 0 < ww_variance 20000 80000"
  using test_runs_overflow [of lib] runs_std_overflow ww_variance_big by simp

theorem runs_test_overflow_witness:
  "fst (test_runs lib0 \<lparr>self_N = 2, self_count = 100000,
                       numbers = replicate 20000 0 @ replicate 80000 1\<rparr>)
     = Inr (RunsResult 2 (Fin 32001) NaN NaN False)"
  using runs_test_overflow [of lib0] by (simp add: lib0_def fsub_def)

subsection \<open>Claims on the independence test\<close>












subsection \<open>Claims on the uniformity test\<close>

text \<open>
  The expected count of a bin is the count the tester was constructed with, divided by
  \<open>N\<close>, not the length of the tested sequence divided by \<open>N\<close>: for a tester with
  \<open>N = 2\<close> and \<open>count = 4\<close> and the sequence \<open>[0, 1]\<close> the expected counts are
  \<open>[2, 2]\<close>, not \<open>[1, 1]\<close>, and \<^verbatim>\<open>stats.chisquare\<close> rejects them because they do
  not add up to the number of observations.
\<close>

theorem uniformity_expected_counterexample:
  "uniformity_expected 2 4 = [Fin 2, Fin 2] \<and>
   fst (test_uniformity lib0 \<lparr>self_N = 2, self_count = 4, numbers = [0, 1]\<rparr>) = Inl ValueError"
proof (intro conjI)
  show e: "uniformity_expected 2 4 = [Fin 2, Fin 2]"
    by (simp add: uniformity_expected_def float_of_int_def numeral_eq_Suc)
  have b: "np_bincount [0, 1] 2 = Inr [1, 1]"
    by (simp add: np_bincount_def upt_rec)
  show "fst (test_uniformity lib0 \<lparr>self_N = 2, self_count = 4, numbers = [0, 1]\<rparr>)
      = Inl ValueError"
    by (simp add: test_uniformity_def b e stats_chisquare_def np_broadcast_def of_counts_def
        fsum_def fsub_def)
qed

text \<open>
  C4, as amended. For every non-empty sequence of integers of \<open>[0, N)\<close>, tested by a
  tester that was constructed with the length of the sequence as its count, the
  uniformity test bins the sequence into exactly \<open>N\<close> categories by raw value, takes
  the expected count of each bin to be the tester's count divided by \<open>N\<close> (here the
  length divided by \<open>N\<close>), computes the chi-square statistic as the sum over the bins of
  \<open>(observed - expected)\<^sup>2 / expected\<close>, takes the p-value from the chi-square
  distribution with \<open>N - 1\<close> degrees of freedom, and reports "uniform" if and only if
  the p-value exceeds 0.05.
\<close>

theorem uniformity_test_computes:
  assumes "1 \<le> self_N s" and "in_range (self_N s) (numbers s)"
    and "numbers s \<noteq> []" and "self_count s = int (length (numbers s))"
  shows "np_bincount (numbers s) (self_N s)
           = Inr (map (\<lambda>v. count_list (numbers s) (int v)) [0..<nat (self_N s)]) \<and>
         uniformity_expected (self_N s) (self_count s)
           = replicate (nat (self_N s))
               (Fin (real (length (numbers s)) / real_of_int (self_N s))) \<and>
         fst (test_uniformity lib s) =
           Inr (UniformityResult
                  (Fin (chi_square_statistic (self_N s) (int (length (numbers s))) (numbers s)))
                  (chi2_sf lib (self_N s - 1)
                     (Fin (chi_square_statistic (self_N s) (int (length (numbers s))) (numbers s))))
                  (fgt (chi2_sf lib (self_N s - 1)
                          (Fin (chi_square_statistic (self_N s) (int (length (numbers s)))
                                  (numbers s))))
                     (Fin 0.05)))"
proof (intro conjI)
  show "np_bincount (numbers s) (self_N s)
      = Inr (map (\<lambda>v. count_list (numbers s) (int v)) [0..<nat (self_N s)])"
    using assms(1,2) by (intro np_bincount_in_range) auto
  show "uniformity_expected (self_N s) (self_count s)
      = replicate (nat (self_N s)) (Fin (real (length (numbers s)) / real_of_int (self_N s)))"
    using uniformity_expected_pos [OF assms(1)] assms(4) by simp
  show "fst (test_uniformity lib s) =
           Inr (UniformityResult
                  (Fin (chi_square_statistic (self_N s) (int (length (numbers s))) (numbers s)))
                  (chi2_sf lib (self_N s - 1)
                     (Fin (chi_square_statistic (self_N s) (int (length (numbers s))) (numbers s))))
                  (fgt (chi2_sf lib (self_N s - 1)
                          (Fin (chi_square_statistic (self_N s) (int (length (numbers s)))
                                  (numbers s))))
                     (Fin 0.05)))"
    by (rule test_uniformity_result [OF assms])
qed

theorem uniformity_test_computes_witness:
  "fst (test_uniformity lib0 \<lparr>self_N = 2, self_count = 4, numbers = [0, 1, 1, 1]\<rparr>) =
     Inr (UniformityResult (Fin (chi_square_statistic 2 4 [0, 1, 1, 1]))
            (chi2_sf lib0 1 (Fin (chi_square_statistic 2 4 [0, 1, 1, 1])))
            (fgt (chi2_sf lib0 1 (Fin (chi_square_statistic 2 4 [0, 1, 1, 1]))) (Fin 0.05))) \<and>
   chi_square_statistic 2 4 [0, 1, 1, 1] = 1"
proof -
  let ?s = "\<lparr>self_N = 2, self_count = 4, numbers = [0, 1, 1, 1]\<rparr>"
  have "1 \<le> self_N ?s" "in_range (self_N ?s) (numbers ?s)" "numbers ?s \<noteq> []"
    "self_count ?s = int (length (numbers ?s))"
    by (simp_all add: in_range_def)
  from uniformity_test_computes [OF this, of lib0]
  have "fst (test_uniformity lib0 ?s) =
     Inr (UniformityResult (Fin (chi_square_statistic 2 4 [0, 1, 1, 1]))
            (chi2_sf lib0 1 (Fin (chi_square_statistic 2 4 [0, 1, 1, 1])))
            (fgt (chi2_sf lib0 1 (Fin (chi_square_statistic 2 4 [0, 1, 1, 1]))) (Fin 0.05)))"
    by simp
  moreover have "chi_square_statistic 2 4 [0, 1, 1, 1] = 1"
    by (simp add: chi_square_statistic_def upt_rec power2_eq_square)
  ultimately show ?thesis by simp
qed

subsection \<open>Claims on the whole battery\<close>

lemma test_runs_constant_nan:
  assumes "1 \<le> n" and "numbers s = replicate n v"
  shows "\<exists>e p b. fst (test_runs lib s) = Inr (RunsResult 1 e NaN p b)"
proof -
  define n1 where "n1 = int n"
  have ne: "numbers s \<noteq> []" using assms by auto
  have first: "numbers s ! 0 = v" using assms by simp
  have c: "int (count_list (numbers s) v) = n1"
    by (simp add: assms(2) count_list_replicate n1_def)
  have n2: "sub64 (int (length (numbers s))) n1 = 0"
    by (simp add: assms(2) n1_def sub64_def wrap64_0)
  have num: "mul64 (mul64 (mul64 2 n1) 0) (sub64 (sub64 (mul64 (mul64 2 n1) 0) n1) 0) = 0"
    by (simp add: mul64_def wrap64_0)
  have z: "fdiv (fsub (float_of_int 1) (runs_expected n1 0)) (runs_std n1 0) = NaN"
  proof (cases "add64 n1 0 = 0")
    case True
    then have "runs_expected n1 0 = NaN"
      by (simp add: runs_expected_def mul64_def wrap64_0 float_of_int_def inf_of_sign_def)
    then show ?thesis by (simp add: fsub_def float_of_int_def fdiv_NaN_left)
  next
    case False
    then have e: "runs_expected n1 0 = Fin 1"
      by (simp add: runs_expected_def mul64_def wrap64_0 float_of_int_def)
    have "runs_std n1 0 = NaN \<or> runs_std n1 0 = Fin 0"
      unfolding runs_std_def num by (simp add: float_of_int_def inf_of_sign_def)
    then show ?thesis
      unfolding e by (auto simp: fsub_def float_of_int_def fdiv_NaN_right inf_of_sign_def)
  qed
  have r: "count_runs (numbers s) = 1" by (simp add: assms(2) count_runs_replicate)
  show ?thesis
    using test_runs_result [OF ne, of lib]
    unfolding first c n2 r Let_def z by simp
qed

lemma run_all_tests_gap_fails:
  assumes "fst (test_uniformity lib s) = Inr r1" "fst (test_independence s) = Inr r2"
    "fst (test_gap_distribution lib s) = Inl e"
  shows "fst (run_all_tests lib s) = Inl e"
proof -
  note steps = step_ok [OF assms(1) snd_test_uniformity] step_ok [OF assms(2) snd_test_independence]
    step_fail [OF assms(3) snd_test_gap_distribution]
  show ?thesis unfolding run_all_tests_def by (simp add: steps)
qed

text \<open>
  The battery does not return five results for every non-empty sequence: on the sequence
  \<open>[0]\<close> the independence test takes \<^verbatim>\<open>np.max\<close> of an empty array of
  coefficients, which raises ValueError, and \<^verbatim>\<open>run_all_tests\<close> raises with it.
\<close>

theorem run_all_tests_counterexample:
  "fst (run_all_tests lib0 \<lparr>self_N = 1, self_count = 1, numbers = [0]\<rparr>) = Inl ValueError"
  by (rule run_all_tests_length_one) simp

text \<open>
  C3, as amended. \<^verbatim>\<open>run_all_tests\<close> has no isolation between the tests: it returns
  the five results in the order uniformity, independence, gap, runs, entropy when no test
  raises, and raises as soon as one does. Take a sequence of at least two integers of
  \<open>[0, N)\<close>, tested by a tester constructed with the length of the sequence as its
  count. If the sequence holds a repeated value, exactly five results come back in the
  fixed order; if it is constant, the degenerate input of the runs test, the runs result
  holds one run and a NaN Z statistic and the other four results are still returned. If
  the sequence holds no repeated value, the degenerate input of the gap test, the list of
  gaps is empty and the outcome is the one of \<^verbatim>\<open>stats.kstest\<close> on an empty sample:
  where it returns a statistic and a p-value (NaN in the current SciPy), five results come
  back, of which the gap result holds a NaN mean, a NaN standard deviation and that
  statistic and p-value; where it raises, \<^verbatim>\<open>run_all_tests\<close> raises the same
  exception. On every sequence of length 1 the battery raises ValueError.
\<close>

theorem run_all_tests_five_results:
  "(2 \<le> length (numbers s) \<and> in_range (self_N s) (numbers s) \<and>
      self_count s = int (length (numbers s)) \<longrightarrow>
      (\<not> distinct (numbers s) \<longrightarrow>
         (\<exists>c pu u m lags i mg sd ks pk g r e z pr rn h hm hr he.
            fst (run_all_tests lib s)
              = Inr [UniformityResult c pu u, IndependenceResult m lags i,
                     GapResult mg sd ks pk g, RunsResult r e z pr rn, EntropyResult h hm hr he] \<and>
            ((\<exists>n v. numbers s = replicate n v) \<longrightarrow> r = 1 \<and> z = NaN))) \<and>
      (distinct (numbers s) \<longrightarrow>
         (\<forall>ks pk. ks_empty lib = Inr (ks, pk) \<longrightarrow>
            (\<exists>c pu u m lags i r e z pr rn h hm hr he.
               fst (run_all_tests lib s)
                 = Inr [UniformityResult c pu u, IndependenceResult m lags i,
                        GapResult NaN NaN ks pk (fgt pk (Fin 0.05)),
                        RunsResult r e z pr rn, EntropyResult h hm hr he])) \<and>
         (\<forall>err. ks_empty lib = Inl err \<longrightarrow> fst (run_all_tests lib s) = Inl err))) \<and>
   (length (numbers s) = 1 \<longrightarrow> fst (run_all_tests lib s) = Inl ValueError)"
proof (intro conjI impI allI)
  assume "length (numbers s) = 1"
  then show "fst (run_all_tests lib s) = Inl ValueError" by (rule run_all_tests_length_one)
next
  assume a: "2 \<le> length (numbers s) \<and> in_range (self_N s) (numbers s) \<and>
      self_count s = int (length (numbers s))"
  then have ne: "numbers s \<noteq> []" by auto
  then obtain x where "x \<in> set (numbers s)" by (cases "numbers s") auto
  then have N: "1 \<le> self_N s" using a by (fastforce simp: in_range_def list_all_iff)
  have r1: "fst (test_uniformity lib s) =
      Inr (UniformityResult
            (Fin (chi_square_statistic (self_N s) (int (length (numbers s))) (numbers s)))
            (chi2_sf lib (self_N s - 1)
               (Fin (chi_square_statistic (self_N s) (int (length (numbers s))) (numbers s))))
            (fgt (chi2_sf lib (self_N s - 1)
                    (Fin (chi_square_statistic (self_N s) (int (length (numbers s))) (numbers s))))
               (Fin 0.05)))"
    using a ne N by (intro test_uniformity_result) auto
  obtain m lags i where r2: "fst (test_independence s) = Inr (IndependenceResult m lags i)"
    using test_independence_ok [of s] a by blast
  obtain r e z pr rn where r4: "fst (test_runs lib s) = Inr (RunsResult r e z pr rn)"
    using test_runs_ok [OF ne, of lib] by blast
  obtain h hm hr he where r5: "fst (test_entropy s) = Inr (EntropyResult h hm hr he)"
    using test_entropy_ok [of s] a N by auto
  {
    assume nd: "\<not> distinct (numbers s)"
    obtain mg sd ks pk g where r3: "fst (test_gap_distribution lib s) = Inr (GapResult mg sd ks pk g)"
      using test_gap_distribution_ok [OF nd, of lib] by blast
    have const: "(\<exists>n v. numbers s = replicate n v) \<longrightarrow> r = 1 \<and> z = NaN"
    proof
      assume "\<exists>n v. numbers s = replicate n v"
      then obtain n v where nv: "numbers s = replicate n v" by blast
      then have "1 \<le> n" using ne by (cases n) auto
      from test_runs_constant_nan [OF this nv, of lib] r4 show "r = 1 \<and> z = NaN" by auto
    qed
    show "\<exists>c pu u m lags i mg sd ks pk g r e z pr rn h hm hr he.
         fst (run_all_tests lib s)
           = Inr [UniformityResult c pu u, IndependenceResult m lags i, GapResult mg sd ks pk g,
                  RunsResult r e z pr rn, EntropyResult h hm hr he] \<and>
         ((\<exists>n v. numbers s = replicate n v) \<longrightarrow> r = 1 \<and> z = NaN)"
      apply (intro exI conjI)
       apply (rule run_all_tests_ok [OF r1 r2 r3 r4 r5])
      apply (rule const)
      done
  }
  {
    fix ks pk
    assume d: "distinct (numbers s)" and k: "ks_empty lib = Inr (ks, pk)"
    have r3: "fst (test_gap_distribution lib s)
        = Inr (GapResult NaN NaN ks pk (fgt pk (Fin 0.05)))"
      unfolding test_gap_distribution_distinct [OF d] k by simp
    show "\<exists>c pu u m lags i r e z pr rn h hm hr he.
         fst (run_all_tests lib s)
           = Inr [UniformityResult c pu u, IndependenceResult m lags i,
                  GapResult NaN NaN ks pk (fgt pk (Fin 0.05)),
                  RunsResult r e z pr rn, EntropyResult h hm hr he]"
      apply (intro exI)
      apply (rule run_all_tests_ok [OF r1 r2 r3 r4 r5])
      done
  }
  {
    fix err
    assume d: "distinct (numbers s)" and k: "ks_empty lib = Inl err"
    have r3: "fst (test_gap_distribution lib s) = Inl err"
      unfolding test_gap_distribution_distinct [OF d] k by simp
    show "fst (run_all_tests lib s) = Inl err"
      by (rule run_all_tests_gap_fails [OF r1 r2 r3])
  }
qed

text \<open>
  Four testers: on a constant sequence, on a sequence without a repeated value with a
  \<^verbatim>\<open>kstest\<close> that returns NaN on an empty sample and with one that raises, and on a
  sequence of length 1.
\<close>

theorem run_all_tests_five_results_witness:
  "(\<exists>c pu u m lags i mg sd ks pk g r e z pr rn h hm hr he.
      fst (run_all_tests lib0 \<lparr>self_N = 3, self_count = 3, numbers = [2, 2, 2]\<rparr>)
        = Inr [UniformityResult c pu u, IndependenceResult m lags i, GapResult mg sd ks pk g,
               RunsResult r e z pr rn, EntropyResult h hm hr he] \<and> r = 1 \<and> z = NaN) \<and>
   (\<exists>c pu u m lags i r e z pr rn h hm hr he.
      fst (run_all_tests lib0 \<lparr>self_N = 3, self_count = 3, numbers = [0, 1, 2]\<rparr>)
        = Inr [UniformityResult c pu u, IndependenceResult m lags i,
               GapResult NaN NaN NaN NaN False,
               RunsResult r e z pr rn, EntropyResult h hm hr he]) \<and>
   fst (run_all_tests (lib0\<lparr>ks_empty := Inl ValueError\<rparr>)
          \<lparr>self_N = 3, self_count = 3, numbers = [0, 1, 2]\<rparr>) = Inl ValueError \<and>
   fst (run_all_tests lib0 \<lparr>self_N = 3, self_count = 1, numbers = [2]\<rparr>) = Inl ValueError"
proof (intro conjI)
  let ?s = "\<lparr>self_N = 3, self_count = 3, numbers = [2, 2, 2]\<rparr>"
  have h: "2 \<le> length (numbers ?s) \<and> in_range (self_N ?s) (numbers ?s) \<and>
      self_count ?s = int (length (numbers ?s))" "\<not> distinct (numbers ?s)"
    by (simp_all add: in_range_def)
  have c: "\<exists>n v. numbers ?s = replicate n v"
    by (rule exI [of _ 3], rule exI [of _ 2]) (simp add: numeral_eq_Suc)
  show "\<exists>c pu u m lags i mg sd ks pk g r e z pr rn h hm hr he.
      fst (run_all_tests lib0 ?s)
        = Inr [UniformityResult c pu u, IndependenceResult m lags i, GapResult mg sd ks pk g,
               RunsResult r e z pr rn, EntropyResult h hm hr he] \<and> r = 1 \<and> z = NaN"
    using run_all_tests_five_results [of ?s lib0] h c by simp
  let ?d = "\<lparr>self_N = 3, self_count = 3, numbers = [0, 1, 2]\<rparr>"
  have hd: "2 \<le> length (numbers ?d) \<and> in_range (self_N ?d) (numbers ?d) \<and>
      self_count ?d = int (length (numbers ?d))" "distinct (numbers ?d)"
    by (simp_all add: in_range_def)
  show "\<exists>c pu u m lags i r e z pr rn h hm hr he.
      fst (run_all_tests lib0 ?d)
        = Inr [UniformityResult c pu u, IndependenceResult m lags i,
               GapResult NaN NaN NaN NaN False,
               RunsResult r e z pr rn, EntropyResult h hm hr he]"
    using run_all_tests_five_results [of ?d lib0] hd by (simp add: lib0_def)
  show "fst (run_all_tests (lib0\<lparr>ks_empty := Inl ValueError\<rparr>) ?d) = Inl ValueError"
    using run_all_tests_five_results [of ?d "lib0\<lparr>ks_empty := Inl ValueError\<rparr>"] hd by simp
  show "fst (run_all_tests lib0 \<lparr>self_N = 3, self_count = 1, numbers = [2]\<rparr>) = Inl ValueError"
    using run_all_tests_five_results [of "\<lparr>self_N = 3, self_count = 1, numbers = [2]\<rparr>" lib0]
    by simp
qed

end
